theory Spec2Isabelle
  imports Main "HOL-Library.AList" "HOL-Library.Multiset"
begin

section \<open>Data model of \<open>dv_router.py\<close>\<close>

text \<open>
  The router runs on the course simulator, a Python 2 program: \<open>keys()\<close> and
  \<open>items()\<close> return lists, so a loop that deletes from the dict it walks goes over a
  snapshot taken when the loop starts. A dict is an association list with distinct keys,
  read in the order in which the dict is iterated. Python 2 fixes that order by the hashes
  of the keys; here an assignment to a present key keeps its place and a new key goes to
  the end. The theorems about all states hold for every order, since a state may list its
  dicts in any order. Hosts are named by strings, ports and latencies are Python integers,
  the simulator's clock is an integer and is read once per call.

  A tuple of three fields is true in a condition, so \<open>if table.get(key)\<close> asks whether
  the key is present; a dict is true when it is not empty.
\<close>

type_synonym host = string
type_synonym port = int

text \<open>
  Modelled from the spec: the types of \<open>dv_utils\<close>, which the router imports and which
  are not among the sources. A \<open>PeerTableEntry\<close> is \<open>{destination, latency, expiresAt}\<close>,
  where \<open>expiresAt\<close> is a timestamp or the sentinel "never expires"
  (\<open>PeerTableEntry.FOREVER\<close> in the code); a \<open>ForwardingTableEntry\<close> is
  \<open>{destination, outPort, latency}\<close>, which the code also reads by position
  (\<open>[0]\<close>, \<open>[1]\<close>, \<open>[2]\<close>); a \<open>PeerTable\<close> and a \<open>ForwardingTable\<close> are dicts from
  destinations to entries.
\<close>

datatype expire = FOREVER | At int

datatype PeerTableEntry =
  PeerTableEntry (pte_dst: host) (pte_latency: int) (pte_expire_time: expire)

datatype ForwardingTableEntry =
  ForwardingTableEntry (fte_dst: host) (fte_port: port) (fte_latency: int)

text \<open>
  Modelled from the spec: the messages of \<open>sim.basics\<close>, not among the sources. A data
  packet is \<open>{source, destination, payload}\<close>, a route advertisement
  (\<open>basics.RoutePacket\<close>) is \<open>{destination, cost}\<close>.
\<close>

record Packet =
  src :: host
  dst :: host
  payload :: string

datatype wire = RoutePacket host int | DataPacket Packet

text \<open>One call \<open>self.send(packet, port, flood=False)\<close>.\<close>

type_synonym sent = "wire \<times> port"

type_synonym PeerTable = "(host \<times> PeerTableEntry) list"
type_synonym ForwardingTable = "(host \<times> ForwardingTableEntry) list"
type_synonym History = "((port \<times> host) \<times> ForwardingTableEntry) list"

record DVRouter =
  POISON_MODE :: bool
  link_latency :: "(port \<times> int) list"
  peer_tables :: "(port \<times> PeerTable) list"
  forwarding_table :: ForwardingTable
  history :: History
  removedHosts :: "(host \<times> port) list"
  emptyFwdTableList :: "(port \<times> host) list"
  poisonedHosts :: "(host \<times> port) list"
  removedHostKeys :: "(host \<times> port) list"
  removedFromPoisonedHosts :: "(host \<times> port) list"
  trickledHosts :: "(host \<times> port) list"

datatype error = KeyError | AssertionError

text \<open>
  How a call ends: it returns, or it raises with the state it had reached.
\<close>

datatype 'a outcome = Normal 'a | Raised error 'a

definition INFINITY :: int where
  "INFINITY = 16"

definition ROUTE_TTL :: int where
  "ROUTE_TTL = 15"

text \<open>
  \<open>__init__\<close>. \<open>POISON_MODE\<close> is an attribute of the base class \<open>basics.DVRouterBase\<close>,
  which is not among the sources: it is a parameter of the initial state.
\<close>

definition init :: "bool \<Rightarrow> DVRouter" where
  "init poison = \<lparr> POISON_MODE = poison, link_latency = [], peer_tables = [],
     forwarding_table = [], history = [], removedHosts = [], emptyFwdTableList = [],
     poisonedHosts = [], removedHostKeys = [], removedFromPoisonedHosts = [],
     trickledHosts = [] \<rparr>"

text \<open>The dicts of a router have distinct keys.\<close>

definition wf_router :: "DVRouter \<Rightarrow> bool" where
  "wf_router s = (distinct (map fst (link_latency s)) \<and> distinct (map fst (peer_tables s)) \<and>
     list_all (\<lambda>pt. distinct (map fst (snd pt))) (peer_tables s) \<and>
     distinct (map fst (forwarding_table s)) \<and> distinct (map fst (history s)))"

section \<open>\<open>update_forwarding_table\<close>\<close>

text \<open>The body of the inner loop, for one \<open>(host, value)\<close> of the peer table of \<open>port\<close>.\<close>

definition uft_entry ::
  "DVRouter \<Rightarrow> port \<Rightarrow> host \<times> PeerTableEntry \<Rightarrow> ForwardingTable
     \<Rightarrow> ForwardingTable outcome" where
  "uft_entry s port hv ft =
    (let key = fst hv; value = snd hv in
     case map_of (link_latency s) port of
       None \<Rightarrow> Raised KeyError ft
     | Some ll \<Rightarrow>
        (let truthy = (case map_of (peer_tables s) port of None \<Rightarrow> False | Some t \<Rightarrow> t \<noteq> []);
             currCost = (if truthy then ll + pte_latency value else ll);
             currCost = (if currCost > INFINITY then INFINITY else currCost)
         in case map_of ft key of
              Some prev \<Rightarrow>
                (if currCost < fte_latency prev
                 then Normal (AList.update key (ForwardingTableEntry key port currCost) ft)
                 else Normal ft)
            | None \<Rightarrow> Normal (AList.update key (ForwardingTableEntry key port currCost) ft)))"

fun uft_hosts ::
  "DVRouter \<Rightarrow> port \<Rightarrow> (host \<times> PeerTableEntry) list \<Rightarrow> ForwardingTable
     \<Rightarrow> ForwardingTable outcome" where
  "uft_hosts s port [] ft = Normal ft"
| "uft_hosts s port (hv # rest) ft =
    (case uft_entry s port hv ft of
       Normal ft' \<Rightarrow> uft_hosts s port rest ft'
     | Raised e ft' \<Rightarrow> Raised e ft')"

fun uft_ports ::
  "DVRouter \<Rightarrow> (port \<times> PeerTable) list \<Rightarrow> ForwardingTable \<Rightarrow> ForwardingTable outcome" where
  "uft_ports s [] ft = Normal ft"
| "uft_ports s (pt # rest) ft =
    (case uft_hosts s (fst pt) (snd pt) ft of
       Normal ft' \<Rightarrow> uft_ports s rest ft'
     | Raised e ft' \<Rightarrow> Raised e ft')"

definition update_forwarding_table :: "DVRouter \<Rightarrow> DVRouter outcome" where
  "update_forwarding_table s =
    (case uft_ports s (peer_tables s) [] of
       Normal ft \<Rightarrow> Normal (s\<lparr>forwarding_table := ft\<rparr>)
     | Raised e ft \<Rightarrow> Raised e (s\<lparr>forwarding_table := ft\<rparr>))"

section \<open>\<open>handle_data_packet\<close>\<close>

definition handle_data_packet :: "Packet \<Rightarrow> port \<Rightarrow> DVRouter \<Rightarrow> DVRouter \<times> sent list" where
  "handle_data_packet packet in_port s =
    (let destination = dst packet in
     case map_of (forwarding_table s) destination of
       None \<Rightarrow> (s, [])
     | Some e \<Rightarrow>
        (let dist = fte_latency e in
         if dist \<ge> INFINITY then (s, [])
         else let out_port = fte_port e in
              if out_port = in_port then (s, [])
              else (s, [(DataPacket packet, out_port)])))"

section \<open>\<open>send_routes\<close>\<close>

text \<open>
  The test before a send with \<open>force == False\<close>: the pair is not in the history, or the
  entry kept there has another destination or another latency.
\<close>

definition stale :: "History \<Rightarrow> port \<Rightarrow> host \<Rightarrow> int \<Rightarrow> bool" where
  "stale h port key c =
    (case map_of h (port, key) of
       None \<Rightarrow> True
     | Some e \<Rightarrow> fte_dst e \<noteq> key \<or> fte_latency e \<noteq> c)"

text \<open>Send a \<open>RoutePacket\<close> and record it in the history.\<close>

definition advertise :: "host \<Rightarrow> port \<Rightarrow> int \<Rightarrow> History \<times> sent list \<Rightarrow> History \<times> sent list" where
  "advertise key port c acc =
    (AList.update (port, key) (ForwardingTableEntry key port c) (fst acc),
     snd acc @ [(RoutePacket key c, port)])"

text \<open>The body of the first pair of loops (lines 191 to 231).\<close>

definition route_step ::
  "bool \<Rightarrow> bool \<Rightarrow> port \<Rightarrow> host \<times> ForwardingTableEntry \<Rightarrow> History \<times> sent list
     \<Rightarrow> History \<times> sent list" where
  "route_step poison force port ki acc =
    (let key = fst ki; item = snd ki; fwdPorts = fte_port item in
     if poison then
       (if port = fwdPorts then
          (if \<not> force then
             (if stale (fst acc) port key INFINITY then advertise key port INFINITY acc else acc)
           else advertise key port INFINITY acc)
        else
          (if \<not> force then
             (if stale (fst acc) port key (fte_latency item)
              then advertise key port (fte_latency item) acc else acc)
           else advertise key port (fte_latency item) acc))
     else if \<not> poison \<and> port \<noteq> fwdPorts then
       (if \<not> force then
          (if stale (fst acc) port key (fte_latency item)
           then advertise key port (fte_latency item) acc else acc)
        else advertise key port (fte_latency item) acc)
     else acc)"

definition route_pass :: "bool \<Rightarrow> DVRouter \<Rightarrow> History \<times> sent list \<Rightarrow> History \<times> sent list" where
  "route_pass force s acc =
    fold (\<lambda>port. fold (route_step (POISON_MODE s) force port) (forwarding_table s))
      (map fst (peer_tables s)) acc"

text \<open>
  What the withdrawal loops (lines 233 to 291) change: the history, \<open>emptyFwdTableList\<close>,
  the local \<open>tempList\<close> and the packets sent.
\<close>

record wstate =
  w_history :: History
  w_empty :: "(port \<times> host) list"
  w_temp :: "(port \<times> host) list"
  w_out :: "sent list"

text \<open>The test on an empty forwarding table (lines 248 to 252); True is \<open>break\<close>.\<close>

definition empty_check :: "port \<Rightarrow> host \<Rightarrow> wstate \<Rightarrow> bool \<times> wstate" where
  "empty_check port host w =
    (if (port, host) \<in> set (map fst (w_history w)) \<and> (port, host) \<notin> set (w_empty w)
     then (False, w\<lparr>w_empty := w_empty w @ [(port, host)]\<rparr>)
     else if (port, host) \<in> set (w_empty w) then (True, w)
     else (False, w))"

text \<open>Lines 254 to 258, one forwarding-table item.\<close>

definition purge_finite :: "port \<Rightarrow> host \<Rightarrow> host \<times> ForwardingTableEntry \<Rightarrow> wstate \<Rightarrow> wstate" where
  "purge_finite port host kv w =
    (let key = fst kv in
     if host \<noteq> key \<and> (port, host) \<in> set (map fst (w_history w))
     then w\<lparr>w_history := AList.delete (port, host) (w_history w)\<rparr>
     else if host = key then w\<lparr>w_temp := w_temp w @ [(port, key)]\<rparr>
     else w)"

text \<open>Lines 268 to 276, one forwarding-table item.\<close>

definition purge_poisoned ::
  "DVRouter \<Rightarrow> port \<Rightarrow> host \<Rightarrow> host \<times> ForwardingTableEntry \<Rightarrow> wstate \<Rightarrow> wstate" where
  "purge_poisoned s port host kv w =
    (let key = fst kv; value = snd kv in
     if key = host \<and> fte_port value = port then w\<lparr>w_temp := w_temp w @ [(port, key)]\<rparr>
     else if (port, host) \<in> set (map fst (w_history w))
       then (if (host, port) \<in> set (removedFromPoisonedHosts s) then w
             else w\<lparr>w_history := AList.delete (port, host) (w_history w)\<rparr>)
       else w)"

text \<open>Lines 278 to 291: the poisoning announcement itself.\<close>

definition announce :: "DVRouter \<Rightarrow> port \<Rightarrow> host \<Rightarrow> wstate \<Rightarrow> wstate" where
  "announce s port host w =
    (if (port, host) \<notin> set (map fst (w_history w)) \<or> w_empty w \<noteq> [] then
       (if (port, host) \<in> set (w_temp w) then w
        else if (host, port) \<in> set (removedFromPoisonedHosts s) then w
        else if (host, port) \<in> set (trickledHosts s) then w
        else (let acc = advertise host port INFINITY (w_history w, w_out w)
              in w\<lparr>w_history := fst acc, w_out := snd acc\<rparr>))
     else w)"

text \<open>Lines 243 to 276, run when \<open>force == True\<close>; True is \<open>break\<close>.\<close>

definition forced_purge :: "DVRouter \<Rightarrow> port \<Rightarrow> host \<Rightarrow> wstate \<Rightarrow> bool \<times> wstate" where
  "forced_purge s port host w =
    (case map_of (w_history w) (port, host) of
       None \<Rightarrow> (False, w)
     | Some val \<Rightarrow>
        (if fte_latency val \<noteq> INFINITY then
           (let chk = (if length (forwarding_table s) = 0 then empty_check port host w
                       else (False, w))
            in if fst chk then (True, snd chk)
               else (False, fold (purge_finite port host) (forwarding_table s) (snd chk)))
         else
           (let chk = (if length (forwarding_table s) = 0 then empty_check port host w
                       else (False, w))
            in if fst chk then (True, snd chk)
               else (False, fold (purge_poisoned s port host) (forwarding_table s) (snd chk)))))"

text \<open>The body of the loop over the ports, for one removed pair; True is \<open>break\<close>.\<close>

definition withdraw_step ::
  "bool \<Rightarrow> DVRouter \<Rightarrow> host \<times> port \<Rightarrow> port \<Rightarrow> wstate \<Rightarrow> bool \<times> wstate" where
  "withdraw_step force s rem port w =
    (let host = fst rem in
     if \<not> force \<and> rem \<notin> set (poisonedHosts s) then (True, w)
     else let r = (if force then forced_purge s port host w else (False, w))
          in if fst r then (True, snd r)
             else (False, announce s port host (snd r)))"

fun withdraw_ports ::
  "bool \<Rightarrow> DVRouter \<Rightarrow> host \<times> port \<Rightarrow> port list \<Rightarrow> wstate \<Rightarrow> wstate" where
  "withdraw_ports force s rem [] w = w"
| "withdraw_ports force s rem (port # ports) w =
    (let r = withdraw_step force s rem port w
     in if fst r then snd r else withdraw_ports force s rem ports (snd r))"

definition withdraw_pass :: "bool \<Rightarrow> DVRouter \<Rightarrow> wstate \<Rightarrow> wstate" where
  "withdraw_pass force s w =
    fold (\<lambda>rem. withdraw_ports force s rem (map fst (peer_tables s))) (removedHosts s) w"

text \<open>
  Lines 295 to 298: the loop walks \<open>poisonedHosts\<close> by index while \<open>remove\<close> shortens it.
\<close>

function settle_poisoned ::
  "nat \<Rightarrow> (host \<times> port) list \<Rightarrow> (host \<times> port) list \<times> (host \<times> port) list
     \<Rightarrow> (host \<times> port) list \<times> (host \<times> port) list" where
  "settle_poisoned i removed pr =
    (if i < length (fst pr) then
       (let elem = fst pr ! i in
        if elem \<in> set removed
        then settle_poisoned (i + 1) removed (remove1 elem (fst pr), snd pr @ [elem])
        else settle_poisoned (i + 1) removed pr)
     else pr)"
  by pat_completeness auto
termination
  by (relation "measure (\<lambda>(i, removed, pr). length (fst pr) - i)")
     (auto simp: length_remove1)

declare settle_poisoned.simps [simp del]

definition send_routes :: "bool \<Rightarrow> DVRouter \<Rightarrow> DVRouter \<times> sent list" where
  "send_routes force s =
    (let acc = route_pass force s (history s, []);
         w0 = \<lparr> w_history = fst acc, w_empty = emptyFwdTableList s, w_temp = [],
                w_out = snd acc \<rparr>;
         w = (if POISON_MODE s then withdraw_pass force s w0 else w0);
         pr = (if POISON_MODE s \<and> \<not> force
               then settle_poisoned 0 (removedHosts s)
                      (poisonedHosts s, removedFromPoisonedHosts s)
               else (poisonedHosts s, removedFromPoisonedHosts s))
     in (s\<lparr> history := w_history w, emptyFwdTableList := w_empty w,
            poisonedHosts := fst pr, removedFromPoisonedHosts := snd pr \<rparr>,
         w_out w))"

section \<open>Handlers\<close>

definition handle_link_up :: "port \<Rightarrow> int \<Rightarrow> DVRouter \<Rightarrow> DVRouter \<times> sent list" where
  "handle_link_up port latency s =
    (let s1 = s\<lparr> link_latency := AList.update port latency (link_latency s),
                 peer_tables := AList.update port [] (peer_tables s) \<rparr>;
         acc = fold (\<lambda>kv acc. advertise (fst kv) port (fte_latency (snd kv)) acc)
                 (forwarding_table s1) (history s1, [])
     in (s1\<lparr> history := fst acc \<rparr>, snd acc))"

text \<open>Lines 93 to 98, for one key of the snapshot \<open>forwarding_table.keys()\<close>.\<close>

definition down_entry :: "port \<Rightarrow> host \<Rightarrow> DVRouter \<Rightarrow> DVRouter outcome" where
  "down_entry port x s =
    (case map_of (forwarding_table s) x of
       None \<Rightarrow> Raised KeyError s
     | Some e \<Rightarrow>
        (if fte_port e = port then
           (if (fte_dst e, port) \<notin> set (removedHosts s)
            then Normal (s\<lparr> removedHosts := removedHosts s @ [(fte_dst e, port)],
                            poisonedHosts := poisonedHosts s @ [(fte_dst e, port)],
                            forwarding_table := AList.delete x (forwarding_table s) \<rparr>)
            else Normal s)
         else Normal s))"

fun down_entries :: "port \<Rightarrow> host list \<Rightarrow> DVRouter \<Rightarrow> DVRouter outcome" where
  "down_entries port [] s = Normal s"
| "down_entries port (x # xs) s =
    (case down_entry port x s of
       Normal s' \<Rightarrow> down_entries port xs s'
     | Raised e s' \<Rightarrow> Raised e s')"

text \<open>Lines 103 to 106: for one removed pair, walk a snapshot of the history's keys.\<close>

definition forget_item :: "host \<times> port \<Rightarrow> port \<times> host \<Rightarrow> History \<Rightarrow> History" where
  "forget_item elem item h =
    (if snd elem \<noteq> fst item \<and> fst elem = snd item then AList.delete item h else h)"

definition forget_removed :: "(host \<times> port) list \<Rightarrow> History \<Rightarrow> History" where
  "forget_removed removed h =
    fold (\<lambda>elem h'. fold (forget_item elem) (map fst h') h') removed h"

definition handle_link_down :: "port \<Rightarrow> DVRouter \<Rightarrow> (DVRouter \<times> sent list) outcome" where
  "handle_link_down port s =
    (case down_entries port (map fst (forwarding_table s)) s of
       Raised e s' \<Rightarrow> Raised e (s', [])
     | Normal s1 \<Rightarrow>
        (let s2 = (if port \<in> set (map fst (peer_tables s1))
                   then s1\<lparr> peer_tables := AList.delete port (peer_tables s1) \<rparr> else s1);
             s3 = s2\<lparr> history := forget_removed (removedHosts s2) (history s2) \<rparr>
         in case update_forwarding_table s3 of
              Raised e s' \<Rightarrow> Raised e (s', [])
            | Normal s4 \<Rightarrow> Normal (send_routes False s4)))"

definition handle_route_advertisement ::
  "int \<Rightarrow> host \<Rightarrow> port \<Rightarrow> int \<Rightarrow> DVRouter \<Rightarrow> (DVRouter \<times> sent list) outcome" where
  "handle_route_advertisement now d port route_latency s =
    (let currentPTE = PeerTableEntry d route_latency (At (now + ROUTE_TTL)) in
     case map_of (peer_tables s) port of
       None \<Rightarrow> Raised KeyError (s, [])
     | Some t \<Rightarrow>
        (let s1 = s\<lparr> peer_tables :=
                      AList.update port (AList.update d currentPTE t) (peer_tables s) \<rparr>
         in case update_forwarding_table s1 of
              Raised e s' \<Rightarrow> Raised e (s', [])
            | Normal s2 \<Rightarrow> Normal (send_routes False s2)))"

definition add_static_route ::
  "host \<Rightarrow> port \<Rightarrow> DVRouter \<Rightarrow> (DVRouter \<times> sent list) outcome" where
  "add_static_route h port s =
    (case map_of (peer_tables s) port of
       None \<Rightarrow> Raised AssertionError (s, [])
     | Some t \<Rightarrow>
        (let pte = PeerTableEntry h 0 FOREVER;
             s1 = s\<lparr> peer_tables := AList.update port (AList.update h pte t) (peer_tables s) \<rparr>
         in case update_forwarding_table s1 of
              Raised e s' \<Rightarrow> Raised e (s', [])
            | Normal s2 \<Rightarrow> Normal (send_routes False s2)))"

section \<open>\<open>expire_routes\<close> and the timer\<close>

text \<open>
  Lines 311 to 317, for one item of the snapshot \<open>forwarding_table.items()\<close>. The
  \<open>del\<close> finds its key: the host was read from this peer table, and the forwarding table
  holds each destination once.
\<close>

definition expire_mark ::
  "port \<Rightarrow> host \<Rightarrow> host \<times> ForwardingTableEntry \<Rightarrow> DVRouter \<Rightarrow> DVRouter" where
  "expire_mark port h kv s =
    (let dest = fst kv in
     if dest = h then
       (let s1 = (if (dest, port) \<notin> set (removedHosts s)
                  then s\<lparr> removedHosts := removedHosts s @ [(dest, port)],
                          poisonedHosts := poisonedHosts s @ [(dest, port)] \<rparr>
                  else s)
        in s1\<lparr> peer_tables :=
                  AList.map_entry port (AList.delete dest) (peer_tables s1) \<rparr>)
     else s)"

text \<open>
  The loop over one peer table; the flag says that \<open>return\<close> was reached, which ends
  \<open>expire_routes\<close> as a whole.
\<close>

fun expire_hosts ::
  "int \<Rightarrow> port \<Rightarrow> (host \<times> PeerTableEntry) list \<Rightarrow> DVRouter \<Rightarrow> (bool \<times> DVRouter) outcome" where
  "expire_hosts now port [] s = Normal (False, s)"
| "expire_hosts now port (hv # rest) s =
    (case pte_expire_time (snd hv) of
       FOREVER \<Rightarrow> Normal (True, s)
     | At t \<Rightarrow>
        (if now > t then
           (case update_forwarding_table
                   (fold (expire_mark port (fst hv)) (forwarding_table s) s) of
              Raised e s' \<Rightarrow> Raised e (False, s')
            | Normal s' \<Rightarrow> expire_hosts now port rest s')
         else expire_hosts now port rest s))"

text \<open>
  The loop over the snapshot of the ports; each peer table is read when its turn comes.
\<close>

fun expire_ports :: "int \<Rightarrow> port list \<Rightarrow> DVRouter \<Rightarrow> (bool \<times> DVRouter) outcome" where
  "expire_ports now [] s = Normal (False, s)"
| "expire_ports now (port # ports) s =
    (case expire_hosts now port
            (case map_of (peer_tables s) port of None \<Rightarrow> [] | Some t \<Rightarrow> t) s of
       Raised e r \<Rightarrow> Raised e r
     | Normal r \<Rightarrow> if fst r then Normal r else expire_ports now ports (snd r))"

definition expire_routes :: "int \<Rightarrow> DVRouter \<Rightarrow> DVRouter outcome" where
  "expire_routes now s =
    (case expire_ports now (map fst (peer_tables s)) s of
       Raised e r \<Rightarrow> Raised e (snd r)
     | Normal r \<Rightarrow> Normal (snd r))"

definition handle_timer :: "int \<Rightarrow> DVRouter \<Rightarrow> (DVRouter \<times> sent list) outcome" where
  "handle_timer now s =
    (case expire_routes now s of
       Raised e s' \<Rightarrow> Raised e (s', [])
     | Normal s' \<Rightarrow> Normal (send_routes True s'))"

section \<open>Notions used in the statements and proofs\<close>

text \<open>
  The cost of the route that port \<open>p\<close> offers through a peer-table entry, and the offers
  for a destination \<open>D\<close> in the order in which \<open>update_forwarding_table\<close> meets them.
\<close>

definition cost :: "DVRouter \<Rightarrow> port \<Rightarrow> PeerTableEntry \<Rightarrow> int" where
  "cost s p e = min (the (map_of (link_latency s) p) + pte_latency e) INFINITY"

definition offers_in :: "DVRouter \<Rightarrow> host \<Rightarrow> port \<times> PeerTable \<Rightarrow> (port \<times> int) list" where
  "offers_in s D pt =
     map (\<lambda>hv. (fst pt, cost s (fst pt) (snd hv))) (filter (\<lambda>hv. fst hv = D) (snd pt))"

definition offers :: "DVRouter \<Rightarrow> host \<Rightarrow> (port \<times> int) list" where
  "offers s D = concat (map (offers_in s D) (peer_tables s))"

text \<open>
  One step of \<open>update_forwarding_table\<close> once the link latency is known, and the same
  choice made on a single offer: keep the one held unless the new one is strictly cheaper.
\<close>

definition merge :: "host \<Rightarrow> port \<Rightarrow> int \<Rightarrow> ForwardingTable \<Rightarrow> ForwardingTable" where
  "merge key p c ft =
    (case map_of ft key of
       Some prev \<Rightarrow> if c < fte_latency prev
                    then AList.update key (ForwardingTableEntry key p c) ft else ft
     | None \<Rightarrow> AList.update key (ForwardingTableEntry key p c) ft)"

definition pick :: "port \<times> int \<Rightarrow> (port \<times> int) option \<Rightarrow> (port \<times> int) option" where
  "pick o' acc = (case acc of None \<Rightarrow> Some o'
                  | Some b \<Rightarrow> if snd o' < snd b then Some o' else Some b)"

definition agrees :: "ForwardingTable \<Rightarrow> host \<Rightarrow> (port \<times> int) option \<Rightarrow> bool" where
  "agrees ft D acc = (map_of ft D = map_option (\<lambda>b. ForwardingTableEntry D (fst b) (snd b)) acc)"

text \<open>
  The cost that the first pair of loops of \<open>send_routes\<close> advertises on port \<open>p\<close> for a
  forwarding-table entry, if any; the pairs of a port and an entry in the order of the
  loops; the packets those loops send.
\<close>

definition adv_cost :: "bool \<Rightarrow> port \<Rightarrow> ForwardingTableEntry \<Rightarrow> int option" where
  "adv_cost poison p item =
    (if poison then Some (if p = fte_port item then INFINITY else fte_latency item)
     else if p \<noteq> fte_port item then Some (fte_latency item) else None)"

definition pairs :: "DVRouter \<Rightarrow> (port \<times> host \<times> ForwardingTableEntry) list" where
  "pairs s = List.product (map fst (peer_tables s)) (forwarding_table s)"

definition route_ads :: "bool \<Rightarrow> DVRouter \<Rightarrow> sent list" where
  "route_ads force s = snd (route_pass force s (history s, []))"

text \<open>The packet one step of those loops sends when it is not suppressed.\<close>

definition step_ad :: "bool \<Rightarrow> port \<times> host \<times> ForwardingTableEntry \<Rightarrow> sent list" where
  "step_ad poison pk = (case adv_cost poison (fst pk) (snd (snd pk)) of
      None \<Rightarrow> [] | Some c \<Rightarrow> [(RoutePacket (fst (snd pk)) c, fst pk)])"

text \<open>
  A poison announcement, and an output that grew by poison announcements only.
\<close>

definition is_poison :: "sent \<Rightarrow> bool" where
  "is_poison x = (\<exists>h p. x = (RoutePacket h INFINITY, p))"

definition grows :: "sent list \<Rightarrow> sent list \<Rightarrow> bool" where
  "grows out out' = (\<exists>ys. out' = out @ ys \<and> list_all is_poison ys)"

text \<open>
  A history in which every advertisement of the first pair of loops is on record; a
  withdrawal state with \<open>emptyFwdTableList\<close> and \<open>tempList\<close> empty; a pair for which the
  withdrawal loop will not announce; a later withdrawal state that kept every record.
\<close>

definition settled :: "bool \<Rightarrow> (port \<times> host \<times> ForwardingTableEntry) list \<Rightarrow> History \<Rightarrow> bool" where
  "settled poison L h =
    (\<forall>pk\<in>set L. \<forall>c. adv_cost poison (fst pk) (snd (snd pk)) = Some c \<longrightarrow>
        \<not> stale h (fst pk) (fst (snd pk)) c)"

definition quiet :: "wstate \<Rightarrow> bool" where
  "quiet w = (w_empty w = [] \<and> w_temp w = [])"

definition covered :: "DVRouter \<Rightarrow> History \<Rightarrow> host \<Rightarrow> port \<Rightarrow> bool" where
  "covered s h d p = ((p, d) \<in> fst ` set h \<or> (d, p) \<in> set (removedFromPoisonedHosts s) \<or>
      (d, p) \<in> set (trickledHosts s))"

definition extends :: "wstate \<Rightarrow> wstate \<Rightarrow> bool" where
  "extends w w' = (quiet w' \<and>
     (\<forall>k e. map_of (w_history w) k = Some e \<longrightarrow> map_of (w_history w') k = Some e))"

text \<open>
  Two withdrawal states that the forced withdrawal loops cannot tell apart: the same
  \<open>emptyFwdTableList\<close>, \<open>tempList\<close> and output, and histories that hold the same entry for
  every port in \<open>P\<close> and destination in \<open>K\<close>. A withdrawal state with one key of the history
  deleted.
\<close>

definition alike :: "port set \<Rightarrow> host set \<Rightarrow> wstate \<Rightarrow> wstate \<Rightarrow> bool" where
  "alike P K w w' = (w_empty w = w_empty w' \<and> w_temp w = w_temp w' \<and> w_out w = w_out w' \<and>
     (\<forall>p\<in>P. \<forall>k\<in>K. map_of (w_history w) (p, k) = map_of (w_history w') (p, k)))"

definition wipe :: "port \<Rightarrow> host \<Rightarrow> wstate \<Rightarrow> wstate" where
  "wipe p d w = w\<lparr>w_history := AList.delete (p, d) (w_history w)\<rparr>"

text \<open>A forwarding table whose latencies are all at most \<open>INFINITY\<close>.\<close>

definition capped :: "ForwardingTable \<Rightarrow> bool" where
  "capped ft = list_all (\<lambda>kv. fte_latency (snd kv) \<le> INFINITY) ft"

text \<open>
  The events the simulator delivers to a router, one at a time, and a run of them from a
  state; a run stops at the first handler that raises.
\<close>

datatype event =
  LinkUp port int | LinkDown port | StaticRoute host port | RouteAd int host port int |
  Timer int

definition handle :: "event \<Rightarrow> DVRouter \<Rightarrow> (DVRouter \<times> sent list) outcome" where
  "handle ev s =
    (case ev of
       LinkUp p l \<Rightarrow> Normal (handle_link_up p l s)
     | LinkDown p \<Rightarrow> handle_link_down p s
     | StaticRoute h p \<Rightarrow> add_static_route h p s
     | RouteAd now d p l \<Rightarrow> handle_route_advertisement now d p l s
     | Timer now \<Rightarrow> handle_timer now s)"

fun run :: "event list \<Rightarrow> DVRouter \<Rightarrow> DVRouter outcome" where
  "run [] s = Normal s"
| "run (ev # evs) s =
    (case handle ev s of
       Normal r \<Rightarrow> run evs (fst r)
     | Raised err r \<Rightarrow> Raised err (fst r))"

text \<open>
  Router states met in the examples. Each is reached from \<open>init\<close> by a run of events, as
  the lemmas named \<open>\<dots>_reached\<close> show.
\<close>

definition two_links :: DVRouter where
  "two_links = (init True)\<lparr> link_latency := [(1, 1), (2, 1)], peer_tables := [(1, []), (2, [])] \<rparr>"

definition three_links :: DVRouter where
  "three_links = (init True)\<lparr> link_latency := [(1, 1), (2, 5), (3, 2)],
     peer_tables := [(1, [(''B'', PeerTableEntry ''B'' 2 (At 15))]), (2, []),
                     (3, [(''B'', PeerTableEntry ''B'' 1 (At 15))])] \<rparr>"

definition learned_B :: DVRouter where
  "learned_B = two_links\<lparr>
     peer_tables := [(1, [(''B'', PeerTableEntry ''B'' 2 (At 15))]), (2, [])],
     forwarding_table := [(''B'', ForwardingTableEntry ''B'' 1 3)],
     history := [((1, ''B''), ForwardingTableEntry ''B'' 1 16),
                 ((2, ''B''), ForwardingTableEntry ''B'' 2 3)] \<rparr>"

definition withdrawn_B :: DVRouter where
  "withdrawn_B = two_links\<lparr>
     peer_tables := [(2, [])],
     history := [((1, ''B''), ForwardingTableEntry ''B'' 1 16),
                 ((2, ''B''), ForwardingTableEntry ''B'' 2 16)],
     removedHosts := [(''B'', 1)], removedFromPoisonedHosts := [(''B'', 1)] \<rparr>"

definition relearned_B :: DVRouter where
  "relearned_B = withdrawn_B\<lparr>
     peer_tables := [(2, []), (1, [(''B'', PeerTableEntry ''B'' 2 (At 16))])],
     forwarding_table := [(''B'', ForwardingTableEntry ''B'' 1 3)],
     history := [((1, ''B''), ForwardingTableEntry ''B'' 1 16),
                 ((2, ''B''), ForwardingTableEntry ''B'' 2 3)] \<rparr>"

definition forgotten_B :: DVRouter where
  "forgotten_B = withdrawn_B\<lparr> history := [((1, ''B''), ForwardingTableEntry ''B'' 1 16)] \<rparr>"

definition host_and_route :: DVRouter where
  "host_and_route = two_links\<lparr>
     peer_tables := [(1, [(''A'', PeerTableEntry ''A'' 0 FOREVER)]),
                     (2, [(''B'', PeerTableEntry ''B'' 3 (At 15))])],
     forwarding_table := [(''A'', ForwardingTableEntry ''A'' 1 1),
                          (''B'', ForwardingTableEntry ''B'' 2 4)],
     history := [((1, ''A''), ForwardingTableEntry ''A'' 1 16),
                 ((2, ''A''), ForwardingTableEntry ''A'' 2 1),
                 ((1, ''B''), ForwardingTableEntry ''B'' 1 4),
                 ((2, ''B''), ForwardingTableEntry ''B'' 2 16)] \<rparr>"

definition four_withdrawn :: DVRouter where
  "four_withdrawn = two_links\<lparr>
     peer_tables := [(2, [])],
     history := [((1, ''A''), ForwardingTableEntry ''A'' 1 16),
                 ((1, ''B''), ForwardingTableEntry ''B'' 1 16),
                 ((1, ''C''), ForwardingTableEntry ''C'' 1 16),
                 ((1, ''D''), ForwardingTableEntry ''D'' 1 16),
                 ((2, ''A''), ForwardingTableEntry ''A'' 2 16),
                 ((2, ''B''), ForwardingTableEntry ''B'' 2 16),
                 ((2, ''C''), ForwardingTableEntry ''C'' 2 16),
                 ((2, ''D''), ForwardingTableEntry ''D'' 2 16)],
     removedHosts := [(''A'', 1), (''B'', 1), (''C'', 1), (''D'', 1)],
     emptyFwdTableList := [(2, ''A''), (2, ''B''), (2, ''C''), (2, ''D'')],
     poisonedHosts := [(''B'', 1), (''D'', 1)],
     removedFromPoisonedHosts := [(''A'', 1), (''C'', 1)] \<rparr>"

definition negative_B :: DVRouter where
  "negative_B = two_links\<lparr>
     peer_tables := [(1, [(''B'', PeerTableEntry ''B'' (- 5) (At 15))]), (2, [])],
     forwarding_table := [(''B'', ForwardingTableEntry ''B'' 1 (- 4))],
     history := [((1, ''B''), ForwardingTableEntry ''B'' 1 16),
                 ((2, ''B''), ForwardingTableEntry ''B'' 2 (- 4))] \<rparr>"

definition far_B :: DVRouter where
  "far_B = two_links\<lparr>
     peer_tables := [(1, [(''B'', PeerTableEntry ''B'' 100 (At 15))]), (2, [])],
     forwarding_table := [(''B'', ForwardingTableEntry ''B'' 1 16)],
     history := [((1, ''B''), ForwardingTableEntry ''B'' 1 16),
                 ((2, ''B''), ForwardingTableEntry ''B'' 2 16)] \<rparr>"

definition plain_withdrawn :: DVRouter where
  "plain_withdrawn = (init False)\<lparr>
     link_latency := [(1, 1), (2, 1), (3, 1)],
     peer_tables := [(2, [(''A'', PeerTableEntry ''A'' 2 (At 15))]), (3, [])],
     forwarding_table := [(''A'', ForwardingTableEntry ''A'' 2 3)],
     history := [((1, ''A''), ForwardingTableEntry ''A'' 1 3),
                 ((3, ''A''), ForwardingTableEntry ''A'' 3 3)],
     removedHosts := [(''B'', 1)], poisonedHosts := [(''B'', 1)] \<rparr>"

section \<open>Forwarding of data packets\<close>

text \<open>
  C7. \<open>handle_data_packet\<close> sends the packet, unchanged, out of the port of the
  forwarding-table entry of its destination exactly when that entry exists, its latency
  is below 16 and its port is not the port the packet came in on; otherwise it sends
  nothing; the router state is the same afterwards in every case.
\<close>

theorem handle_data_packet_forwards:
  "handle_data_packet packet in_port s =
     (s, case map_of (forwarding_table s) (dst packet) of
           None \<Rightarrow> []
         | Some e \<Rightarrow> if fte_latency e < 16 \<and> fte_port e \<noteq> in_port
                     then [(DataPacket packet, fte_port e)] else [])"
  by (simp add: handle_data_packet_def INFINITY_def Let_def split: option.split)

section \<open>The forwarding table holds the first cheapest route\<close>

lemma uft_entry_merge:
  assumes "map_of (link_latency s) p = Some ll" "map_of (peer_tables s) p = Some t" "t \<noteq> []"
  shows "uft_entry s p hv ft = Normal (merge (fst hv) p (cost s p (snd hv)) ft)"
  using assms by (auto simp: uft_entry_def merge_def cost_def Let_def min_def split: option.split)

lemma uft_hosts_fold:
  assumes "map_of (link_latency s) p = Some ll" "map_of (peer_tables s) p = Some t" "t \<noteq> []"
  shows "uft_hosts s p hvs ft = Normal (fold (\<lambda>hv. merge (fst hv) p (cost s p (snd hv))) hvs ft)"
  by (induction hvs arbitrary: ft) (simp_all add: uft_entry_merge[OF assms])

lemma uft_hosts_table:
  assumes "distinct (map fst (peer_tables s))" "pt \<in> set (peer_tables s)"
    "fst pt \<in> fst ` set (link_latency s)"
  shows "uft_hosts s (fst pt) (snd pt) ft =
    Normal (fold (\<lambda>hv. merge (fst hv) (fst pt) (cost s (fst pt) (snd hv))) (snd pt) ft)"
proof (cases "snd pt = []")
  case True
  then show ?thesis by simp
next
  case False
  from assms(3) obtain ll where "map_of (link_latency s) (fst pt) = Some ll"
    by (metis domD dom_map_of_conv_image_fst)
  moreover from assms(1,2) have "map_of (peer_tables s) (fst pt) = Some (snd pt)"
    by (simp add: map_of_eq_Some_iff)
  ultimately show ?thesis using False by (rule uft_hosts_fold)
qed

lemma uft_ports_fold:
  assumes "distinct (map fst (peer_tables s))" "set pts \<subseteq> set (peer_tables s)"
    "fst ` set (peer_tables s) \<subseteq> fst ` set (link_latency s)"
  shows "uft_ports s pts ft =
    Normal (fold (\<lambda>pt. fold (\<lambda>hv. merge (fst hv) (fst pt) (cost s (fst pt) (snd hv))) (snd pt)) pts ft)"
  using assms(2)
proof (induction pts arbitrary: ft)
  case Nil
  then show ?case by simp
next
  case (Cons pt pts)
  have "pt \<in> set (peer_tables s)" using Cons.prems by simp
  moreover have "fst pt \<in> fst ` set (link_latency s)" using calculation assms(3) by auto
  ultimately have "uft_hosts s (fst pt) (snd pt) ft =
    Normal (fold (\<lambda>hv. merge (fst hv) (fst pt) (cost s (fst pt) (snd hv))) (snd pt) ft)"
    using assms(1) by (simp add: uft_hosts_table)
  then show ?case using Cons by simp
qed

lemma agrees_merge:
  "agrees ft D acc \<Longrightarrow> agrees (merge key p c ft) D (if D = key then pick (p, c) acc else acc)"
  by (cases acc) (auto simp: agrees_def merge_def pick_def update_conv' split: option.split)

lemma agrees_hosts:
  "agrees ft D acc \<Longrightarrow>
   agrees (fold (\<lambda>hv. merge (fst hv) p (cost s p (snd hv))) hvs ft) D
     (fold pick (offers_in s D (p, hvs)) acc)"
proof (induction hvs arbitrary: ft acc)
  case Nil
  then show ?case by (simp add: offers_in_def)
next
  case (Cons hv hvs)
  from agrees_merge[OF Cons.prems, of "fst hv" p "cost s p (snd hv)"]
  have "agrees (merge (fst hv) p (cost s p (snd hv)) ft) D
          (if D = fst hv then pick (p, cost s p (snd hv)) acc else acc)" .
  from Cons.IH[OF this] show ?case by (auto simp: offers_in_def)
qed

lemma agrees_ports:
  "agrees ft D acc \<Longrightarrow>
   agrees (fold (\<lambda>pt. fold (\<lambda>hv. merge (fst hv) (fst pt) (cost s (fst pt) (snd hv))) (snd pt)) pts ft) D
     (fold pick (concat (map (offers_in s D) pts)) acc)"
proof (induction pts arbitrary: ft acc)
  case Nil
  then show ?case by simp
next
  case (Cons pt pts)
  from agrees_hosts[OF Cons.prems, of "fst pt" s "snd pt"]
  have "agrees (fold (\<lambda>hv. merge (fst hv) (fst pt) (cost s (fst pt) (snd hv))) (snd pt) ft) D
     (fold pick (offers_in s D pt) acc)" by simp
  from Cons.IH[OF this] show ?case by simp
qed

lemma merge_distinct: "distinct (map fst ft) \<Longrightarrow> distinct (map fst (merge key p c ft))"
  by (simp add: merge_def distinct_update split: option.split)

lemma fold_merge_distinct:
  "distinct (map fst ft) \<Longrightarrow>
   distinct (map fst (fold (\<lambda>hv. merge (fst hv) p (f hv)) hvs ft))"
  by (induction hvs arbitrary: ft) (simp_all add: merge_distinct)

lemma fold_ports_distinct:
  "distinct (map fst ft) \<Longrightarrow>
   distinct (map fst (fold (\<lambda>pt. fold (\<lambda>hv. merge (fst hv) (fst pt) (cost s (fst pt) (snd hv))) (snd pt)) pts ft))"
  by (induction pts arbitrary: ft) (simp_all add: fold_merge_distinct)

lemma pick_simps:
  "pick b None = Some b"
  "pick b (Some a) = (if snd b < snd a then Some b else Some a)"
  by (simp_all add: pick_def)

lemma find_append:
  "find P (xs @ ys) = (case find P xs of None \<Rightarrow> find P ys | Some x \<Rightarrow> Some x)"
  by (induction xs) simp_all

lemma pick_first_min:
  "os \<noteq> [] \<Longrightarrow> \<exists>p c. fold pick os None = Some (p, c) \<and> c = Min (snd ` set os) \<and>
      find (\<lambda>b. snd b = c) os = Some (p, c)"
proof (induction os rule: rev_induct)
  case Nil
  then show ?case by simp
next
  case (snoc b os)
  show ?case
  proof (cases "os = []")
    case True
    then show ?thesis by (cases b) (simp add: pick_simps)
  next
    case False
    from snoc.IH[OF False] obtain p c where
      f: "fold pick os None = Some (p, c)" and m: "c = Min (snd ` set os)"
      and fi: "find (\<lambda>b. snd b = c) os = Some (p, c)" by blast
    have ne: "snd ` set os \<noteq> {}" and fin: "finite (snd ` set os)" using False by auto
    have M: "Min (snd ` set (os @ [b])) = min (snd b) c"
      using ne fin m by (simp add: Min_insert)
    show ?thesis
    proof (cases "snd b < c")
      case True
      have "\<forall>x\<in>set os. snd x \<noteq> snd b"
      proof
        fix x assume "x \<in> set os"
        then have "c \<le> snd x" using m fin by (simp)
        then show "snd x \<noteq> snd b" using True by simp
      qed
      then have "find (\<lambda>x. snd x = snd b) os = None" by (auto simp: find_None_iff)
      then have "find (\<lambda>x. snd x = snd b) (os @ [b]) = Some b"
        by (simp add: find_append)
      then show ?thesis using True f M by (cases b) (simp add: pick_simps min_def)
    next
      case False
      then have "min (snd b) c = c" by simp
      moreover have "find (\<lambda>x. snd x = c) (os @ [b]) = Some (p, c)"
        using fi by (simp add: find_append)
      ultimately show ?thesis using False f M by (simp add: pick_simps)
    qed
  qed
qed

lemma filter_key_single:
  "distinct (map fst xs) \<Longrightarrow> map_of xs k = Some v \<Longrightarrow> filter (\<lambda>kv. fst kv = k) xs = [(k, v)]"
proof (induction xs)
  case Nil
  then show ?case by simp
next
  case (Cons x xs)
  show ?case
  proof (cases "fst x = k")
    case True
    have "\<forall>kv\<in>set xs. fst kv \<noteq> k"
      using True Cons.prems(1) by (auto simp: image_iff)
    then have "filter (\<lambda>kv. fst kv = k) xs = []"
      by (simp add: filter_empty_conv)
    then show ?thesis using True Cons.prems(2) by (cases x) simp
  next
    case False
    then show ?thesis using Cons by (cases x) simp
  qed
qed

lemma offer_costs:
  assumes "wf_router s"
  shows "snd ` set (offers s D) =
     {min (the (map_of (link_latency s) P) + pte_latency e) INFINITY | P t e.
        map_of (peer_tables s) P = Some t \<and> map_of t D = Some e}"
proof -
  have d1: "distinct (map fst (peer_tables s))"
    and d2: "\<And>pt. pt \<in> set (peer_tables s) \<Longrightarrow> distinct (map fst (snd pt))"
    using assms by (auto simp: wf_router_def list_all_iff)
  have "set (offers s D) = {(P, cost s P e) | P t e. (P, t) \<in> set (peer_tables s) \<and> (D, e) \<in> set t}"
  proof (intro set_eqI iffI)
    fix x assume "x \<in> set (offers s D)"
    then show "x \<in> {(P, cost s P e) | P t e. (P, t) \<in> set (peer_tables s) \<and> (D, e) \<in> set t}"
      by (fastforce simp: offers_def offers_in_def)
  next
    fix x assume "x \<in> {(P, cost s P e) | P t e. (P, t) \<in> set (peer_tables s) \<and> (D, e) \<in> set t}"
    then obtain P t e where x: "x = (P, cost s P e)" and pt: "(P, t) \<in> set (peer_tables s)"
      and de: "(D, e) \<in> set t" by blast
    have "x \<in> set (offers_in s D (P, t))"
      using x de by (force simp: offers_in_def)
    then show "x \<in> set (offers s D)" using pt by (auto simp: offers_def)
  qed
  also have "\<dots> = {(P, cost s P e) | P t e. map_of (peer_tables s) P = Some t \<and> map_of t D = Some e}"
    using d1 d2 by (auto simp: map_of_eq_Some_iff) (metis map_of_eq_Some_iff snd_conv)+
  finally have "set (offers s D) =
      {(P, cost s P e) | P t e. map_of (peer_tables s) P = Some t \<and> map_of t D = Some e}" .
  moreover have "snd ` {(P, cost s P e) | P t e. map_of (peer_tables s) P = Some t \<and> map_of t D = Some e}
      = {cost s P e | P t e. map_of (peer_tables s) P = Some t \<and> map_of t D = Some e}"
    by force
  ultimately show ?thesis by (simp add: cost_def)
qed

lemma offers_nonempty:
  assumes "(Q, u) \<in> set (peer_tables s)" and "D \<in> fst ` set u"
  shows "offers s D \<noteq> []"
proof -
  obtain e where "(D, e) \<in> set u" using assms(2) by auto
  then have "offers_in s D (Q, u) \<noteq> []" by (force simp: offers_in_def filter_empty_conv)
  then show ?thesis using assms(1) by (auto simp: offers_def)
qed

text \<open>
  C1. After \<open>update_forwarding_table\<close>, a destination \<open>D\<close> that some peer table holds has
  exactly one entry in the forwarding table. Its latency is the least, over the ports whose
  peer table holds \<open>D\<close>, of the link latency plus the advertised latency, capped at 16;
  its port is the first one, in the order of the iteration, whose capped cost is that
  least value. The dicts have distinct keys, and every port with a peer table has a link
  latency, as \<open>handle_link_up\<close> sets both.
\<close>

theorem update_forwarding_table_minimum:
  assumes "wf_router s"
    and "fst ` set (peer_tables s) \<subseteq> fst ` set (link_latency s)"
    and "(Q, u) \<in> set (peer_tables s)" and "D \<in> fst ` set u"
  shows "\<exists>s' p c. update_forwarding_table s = Normal s' \<and>
      filter (\<lambda>kv. fst kv = D) (forwarding_table s') = [(D, ForwardingTableEntry D p c)] \<and>
      c = Min {min (the (map_of (link_latency s) P) + pte_latency e) INFINITY | P t e.
                 map_of (peer_tables s) P = Some t \<and> map_of t D = Some e} \<and>
      find (\<lambda>b. snd b = c) (offers s D) = Some (p, c)"
proof -
  have some: "offers s D \<noteq> []" by (rule offers_nonempty[OF assms(3,4)])
  let ?ft = "fold (\<lambda>pt. fold (\<lambda>hv. merge (fst hv) (fst pt) (cost s (fst pt) (snd hv))) (snd pt))
               (peer_tables s) []"
  have d: "distinct (map fst (peer_tables s))" using assms(1) by (simp add: wf_router_def)
  have run: "uft_ports s (peer_tables s) [] = Normal ?ft"
    using d assms(2) by (simp add: uft_ports_fold)
  have "agrees [] D None" by (simp add: agrees_def)
  from agrees_ports[OF this, of s "peer_tables s"]
  have ag: "agrees ?ft D (fold pick (offers s D) None)" by (simp add: offers_def)
  from pick_first_min[OF some] obtain p c where
    f: "fold pick (offers s D) None = Some (p, c)" and m: "c = Min (snd ` set (offers s D))"
    and fi: "find (\<lambda>b. snd b = c) (offers s D) = Some (p, c)" by blast
  have "map_of ?ft D = Some (ForwardingTableEntry D p c)" using ag f by (simp add: agrees_def)
  moreover have "distinct (map fst ?ft)" by (simp add: fold_ports_distinct)
  ultimately have one: "filter (\<lambda>kv. fst kv = D) ?ft = [(D, ForwardingTableEntry D p c)]"
    by (simp add: filter_key_single)
  have "update_forwarding_table s = Normal (s\<lparr>forwarding_table := ?ft\<rparr>)"
    by (simp add: update_forwarding_table_def run)
  then show ?thesis using one m fi offer_costs[OF assms(1), of D] by auto
qed

section \<open>What \<open>send_routes\<close> sends\<close>

lemma route_step_alt:
  "route_step poison force p ki acc =
    (case adv_cost poison p (snd ki) of
       None \<Rightarrow> acc
     | Some c \<Rightarrow> if force \<or> stale (fst acc) p (fst ki) c then advertise (fst ki) p c acc else acc)"
  by (simp add: route_step_def adv_cost_def Let_def)

lemma fold_product:
  "fold (\<lambda>x. fold (f x) ys) xs a = fold (\<lambda>xy. f (fst xy) (snd xy)) (List.product xs ys) a"
  by (induction xs arbitrary: a) (simp_all add: fold_map comp_def)

lemma route_pass_flat:
  "route_pass force s acc =
     fold (\<lambda>pk. route_step (POISON_MODE s) force (fst pk) (snd pk)) (pairs s) acc"
  by (simp add: route_pass_def pairs_def fold_product)

lemma forced_fold_out:
  "snd (fold (\<lambda>pk. route_step poison True (fst pk) (snd pk)) L acc) =
     snd acc @ concat (map (step_ad poison) L)"
  by (induction L arbitrary: acc)
     (simp_all add: route_step_alt step_ad_def advertise_def split: option.split)

lemma route_ads_forced:
  "snd (route_pass True s acc) = snd acc @ concat (map (step_ad (POISON_MODE s)) (pairs s))"
  by (simp add: route_pass_flat forced_fold_out)

text \<open>Every step only appends packets, and only its own.\<close>

lemma route_step_out:
  "\<exists>ys. snd (route_step poison force p ki acc) = snd acc @ ys \<and>
        set ys \<subseteq> set (step_ad poison (p, ki))"
  by (auto simp: route_step_alt step_ad_def advertise_def split: option.split)

lemma route_fold_out:
  "\<exists>ys. snd (fold (\<lambda>pk. route_step poison force (fst pk) (snd pk)) L acc) = snd acc @ ys \<and>
        set ys \<subseteq> (\<Union>pk\<in>set L. set (step_ad poison pk))"
proof (induction L arbitrary: acc)
  case Nil
  then show ?case by simp
next
  case (Cons pk L)
  obtain ys where 1: "snd (route_step poison force (fst pk) (snd pk) acc) = snd acc @ ys"
    and 2: "set ys \<subseteq> set (step_ad poison pk)"
    using route_step_out[of poison force "fst pk" "snd pk" acc] by auto
  obtain zs where 3: "snd (fold (\<lambda>pk. route_step poison force (fst pk) (snd pk)) L
        (route_step poison force (fst pk) (snd pk) acc)) =
        snd (route_step poison force (fst pk) (snd pk) acc) @ zs"
    and 4: "set zs \<subseteq> (\<Union>pk\<in>set L. set (step_ad poison pk))"
    using Cons.IH by blast
  have "snd (fold (\<lambda>pk. route_step poison force (fst pk) (snd pk)) (pk # L) acc) = snd acc @ (ys @ zs)"
    using 1 3 by simp
  moreover have "set (ys @ zs) \<subseteq> (\<Union>pk\<in>set (pk # L). set (step_ad poison pk))"
    using 2 4 by auto
  ultimately show ?case by blast
qed

lemma grows_refl: "grows out out"
  by (simp add: grows_def)

lemma grows_trans: "grows a b \<Longrightarrow> grows b c \<Longrightarrow> grows a c"
  by (auto simp: grows_def)

lemma purge_finite_out: "w_out (fold (purge_finite p h) ft w) = w_out w"
  by (induction ft arbitrary: w) (simp_all add: purge_finite_def Let_def)

lemma purge_poisoned_out: "w_out (fold (purge_poisoned s p h) ft w) = w_out w"
  by (induction ft arbitrary: w) (simp_all add: purge_poisoned_def Let_def)

lemma empty_check_out: "w_out (snd (empty_check p h w)) = w_out w"
  by (simp add: empty_check_def)

lemma forced_purge_out: "w_out (snd (forced_purge s p h w)) = w_out w"
  by (simp add: forced_purge_def Let_def purge_finite_out purge_poisoned_out empty_check_out
      split: option.split)

lemma announce_out: "grows (w_out w) (w_out (announce s p h w))"
  by (simp add: announce_def grows_def advertise_def Let_def is_poison_def)

lemma withdraw_step_out: "grows (w_out w) (w_out (snd (withdraw_step force s rem p w)))"
proof -
  have "grows (w_out (snd (forced_purge s p (fst rem) w)))
          (w_out (announce s p (fst rem) (snd (forced_purge s p (fst rem) w))))"
    by (rule announce_out)
  then have "grows (w_out w) (w_out (announce s p (fst rem) (snd (forced_purge s p (fst rem) w))))"
    by (simp add: forced_purge_out)
  then show ?thesis
    by (simp add: withdraw_step_def Let_def grows_refl forced_purge_out announce_out)
qed

lemma withdraw_ports_out: "grows (w_out w) (w_out (withdraw_ports force s rem ps w))"
proof (induction ps arbitrary: w)
  case Nil
  then show ?case by (simp add: grows_refl)
next
  case (Cons p ps)
  have 1: "grows (w_out w) (w_out (snd (withdraw_step force s rem p w)))"
    by (rule withdraw_step_out)
  show ?case
  proof (cases "fst (withdraw_step force s rem p w)")
    case True
    then show ?thesis using 1 by (simp add: Let_def)
  next
    case False
    then show ?thesis using grows_trans[OF 1 Cons.IH] by (simp add: Let_def)
  qed
qed

lemma withdraw_fold_out:
  "grows (w_out w) (w_out (fold (\<lambda>rem. withdraw_ports force s rem ps) rems w))"
proof (induction rems arbitrary: w)
  case Nil
  then show ?case by (simp add: grows_refl)
next
  case (Cons r rems)
  show ?case using grows_trans[OF withdraw_ports_out Cons.IH] by simp
qed

lemma withdraw_pass_out: "grows (w_out w) (w_out (withdraw_pass force s w))"
  by (simp add: withdraw_pass_def withdraw_fold_out)

lemma send_routes_out:
  "\<exists>ys. snd (send_routes force s) = route_ads force s @ ys \<and> list_all is_poison ys \<and>
        (\<not> POISON_MODE s \<or> removedHosts s = [] \<longrightarrow> ys = [])"
proof (cases "POISON_MODE s")
  case False
  then show ?thesis by (simp add: send_routes_def Let_def route_ads_def)
next
  case True
  let ?start = "\<lparr> w_history = fst (route_pass force s (history s, [])),
       w_empty = emptyFwdTableList s, w_temp = [], w_out = route_ads force s \<rparr>"
  have "grows (w_out ?start) (w_out (withdraw_pass force s ?start))" by (rule withdraw_pass_out)
  then obtain ys where ys: "w_out (withdraw_pass force s ?start) = route_ads force s @ ys"
    "list_all is_poison ys" by (auto simp: grows_def)
  have "removedHosts s = [] \<Longrightarrow> ys = []" using ys(1) by (simp add: withdraw_pass_def)
  then show ?thesis using True ys by (auto simp: send_routes_def Let_def route_ads_def)
qed

lemma route_ads_elems:
  assumes "x \<in> set (route_ads force s)"
  shows "\<exists>p k i c. x = (RoutePacket k c, p) \<and> p \<in> fst ` set (peer_tables s) \<and>
           (k, i) \<in> set (forwarding_table s) \<and> adv_cost (POISON_MODE s) p i = Some c"
proof -
  obtain ys where "snd (route_pass force s (history s, [])) = [] @ ys"
    and sub: "set ys \<subseteq> (\<Union>pk\<in>set (pairs s). set (step_ad (POISON_MODE s) pk))"
    using route_fold_out[of "POISON_MODE s" force "pairs s" "(history s, [])"]
    by (auto simp: route_pass_flat)
  then have "x \<in> set ys" using assms by (simp add: route_ads_def)
  then obtain pk where pk: "pk \<in> set (pairs s)" and x: "x \<in> set (step_ad (POISON_MODE s) pk)"
    using sub by blast
  obtain p k i where [simp]: "pk = (p, k, i)" by (cases pk)
  from x obtain c where "adv_cost (POISON_MODE s) p i = Some c" "x = (RoutePacket k c, p)"
    by (cases "adv_cost (POISON_MODE s) p i") (auto simp: step_ad_def)
  then show ?thesis using pk by (force simp: pairs_def)
qed

lemma send_routes_fields [simp]:
  "POISON_MODE (fst (send_routes force s)) = POISON_MODE s"
  "peer_tables (fst (send_routes force s)) = peer_tables s"
  "link_latency (fst (send_routes force s)) = link_latency s"
  "forwarding_table (fst (send_routes force s)) = forwarding_table s"
  "removedHosts (fst (send_routes force s)) = removedHosts s"
  "trickledHosts (fst (send_routes force s)) = trickledHosts s"
  by (simp_all add: send_routes_def Let_def)

lemma pairs_send_routes [simp]: "pairs (fst (send_routes force s)) = pairs s"
  by (simp add: pairs_def)

lemma route_ads_forced_eq: "route_ads True s = concat (map (step_ad (POISON_MODE s)) (pairs s))"
  by (simp add: route_ads_def route_ads_forced)

lemma route_step_other:
  "(p, k) \<noteq> (q, fst ki) \<Longrightarrow>
   map_of (fst (route_step poison force q ki acc)) (p, k) = map_of (fst acc) (p, k)"
  by (auto simp: route_step_alt advertise_def update_conv' split: option.split)

lemma route_step_mono: "set (snd acc) \<subseteq> set (snd (route_step poison force q ki acc))"
  using route_step_out[of poison force q ki acc] by auto





text \<open>
  C10. With \<open>POISON_MODE\<close> off, \<open>send_routes\<close> sends what the loops over the forwarding
  table send and nothing more: every packet is a \<open>RoutePacket\<close> for a destination of the
  forwarding table, and the lists of the withdrawal pass (\<open>emptyFwdTableList\<close>,
  \<open>poisonedHosts\<close>, \<open>removedFromPoisonedHosts\<close>) are as they were, under either value of
  \<open>force\<close>.
\<close>

theorem send_routes_no_withdrawal_without_poison:
  assumes "\<not> POISON_MODE s"
  shows "snd (send_routes force s) = route_ads force s \<and>
     list_all (\<lambda>x. case fst x of RoutePacket d c \<Rightarrow> d \<in> fst ` set (forwarding_table s)
                    | DataPacket pkt \<Rightarrow> False) (snd (send_routes force s)) \<and>
     emptyFwdTableList (fst (send_routes force s)) = emptyFwdTableList s \<and>
     poisonedHosts (fst (send_routes force s)) = poisonedHosts s \<and>
     removedFromPoisonedHosts (fst (send_routes force s)) = removedFromPoisonedHosts s"
proof -
  have 1: "snd (send_routes force s) = route_ads force s"
    using assms by (simp add: send_routes_def Let_def route_ads_def)
  have "list_all (\<lambda>x. case fst x of RoutePacket d c \<Rightarrow> d \<in> fst ` set (forwarding_table s)
                    | DataPacket pkt \<Rightarrow> False) (route_ads force s)"
    unfolding list_all_iff
  proof
    fix x assume "x \<in> set (route_ads force s)"
    from route_ads_elems[OF this] obtain p k i c where
      "x = (RoutePacket k c, p)" "(k, i) \<in> set (forwarding_table s)" by blast
    then show "case fst x of RoutePacket d c \<Rightarrow> d \<in> fst ` set (forwarding_table s)
                    | DataPacket pkt \<Rightarrow> False" by (simp add: image_iff) (metis fst_conv)
  qed
  then show ?thesis using 1 assms by (simp add: send_routes_def Let_def)
qed

section \<open>Suppression of repeated advertisements\<close>

lemma route_step_settles:
  "adv_cost poison p (snd ki) = Some c \<Longrightarrow>
   \<not> stale (fst (route_step poison False p ki acc)) p (fst ki) c"
  by (simp add: route_step_alt advertise_def stale_def update_conv')

lemma route_step_keeps:
  assumes "\<not> stale (fst acc) p k c"
    and "(p, k) = (q, fst ki) \<Longrightarrow> adv_cost poison q (snd ki) = Some c"
  shows "\<not> stale (fst (route_step poison False q ki acc)) p k c"
proof (cases "(p, k) = (q, fst ki)")
  case True
  then show ?thesis using assms by (auto simp: route_step_alt)
next
  case False
  then have "map_of (fst (route_step poison False q ki acc)) (p, k) = map_of (fst acc) (p, k)"
    by (rule route_step_other)
  then show ?thesis using assms(1) by (simp add: stale_def)
qed

lemma route_fold_settles:
  assumes "\<And>p k i i'. (p, k, i) \<in> set L \<Longrightarrow> (p, k, i') \<in> set L \<Longrightarrow> i = i'"
  shows "settled poison L (fst (fold (\<lambda>pk. route_step poison False (fst pk) (snd pk)) L acc))"
  using assms
proof (induction L rule: rev_induct)
  case Nil
  then show ?case by (simp add: settled_def)
next
  case (snoc x L)
  let ?a = "fold (\<lambda>pk. route_step poison False (fst pk) (snd pk)) L acc"
  have IH: "settled poison L (fst ?a)"
    by (rule snoc.IH) (use snoc.prems in auto)
  have "\<not> stale (fst (route_step poison False (fst x) (snd x) ?a)) (fst pk) (fst (snd pk)) c"
    if pk: "pk \<in> set (L @ [x])" and c: "adv_cost poison (fst pk) (snd (snd pk)) = Some c" for pk c
  proof (cases "pk = x")
    case True
    then show ?thesis using c route_step_settles[of poison "fst x" "snd x" c ?a] by simp
  next
    case False
    then have inL: "pk \<in> set L" using pk by simp
    then have ns: "\<not> stale (fst ?a) (fst pk) (fst (snd pk)) c" using IH c by (auto simp: settled_def)
    show ?thesis
    proof (rule route_step_keeps[OF ns])
      assume eq: "(fst pk, fst (snd pk)) = (fst x, fst (snd x))"
      have "(fst pk, fst (snd pk), snd (snd pk)) \<in> set (L @ [x])" using inL by simp
      moreover have "(fst pk, fst (snd pk), snd (snd x)) \<in> set (L @ [x])" using eq
        by (metis in_set_conv_decomp prod.collapse prod.inject)
      ultimately have "snd (snd pk) = snd (snd x)" by (rule snoc.prems)
      then show "adv_cost poison (fst x) (snd (snd x)) = Some c" using c eq by simp
    qed
  qed
  then show ?case by (simp add: settled_def)
qed

lemma route_fold_quiet:
  "settled poison L (fst acc) \<Longrightarrow>
   fold (\<lambda>pk. route_step poison False (fst pk) (snd pk)) L acc = acc"
proof (induction L)
  case Nil
  then show ?case by simp
next
  case (Cons pk L)
  have "route_step poison False (fst pk) (snd pk) acc = acc"
    using Cons.prems by (auto simp: settled_def route_step_alt split: option.split)
  moreover have "settled poison L (fst acc)" using Cons.prems by (simp add: settled_def)
  ultimately show ?case using Cons.IH by simp
qed

lemma pairs_functional:
  assumes "distinct (map fst (forwarding_table s))"
    and "(p, k, i) \<in> set (pairs s)" and "(p, k, i') \<in> set (pairs s)"
  shows "i = i'"
proof -
  have 1: "(k, i) \<in> set (forwarding_table s)" and 2: "(k, i') \<in> set (forwarding_table s)"
    using assms(2,3) by (auto simp: pairs_def)
  have "map_of (forwarding_table s) k = Some i"
    by (rule map_of_is_SomeI[OF assms(1) 1])
  moreover have "map_of (forwarding_table s) k = Some i'"
    by (rule map_of_is_SomeI[OF assms(1) 2])
  ultimately show ?thesis by simp
qed

lemma route_pass_settles:
  assumes "distinct (map fst (forwarding_table s))"
  shows "settled (POISON_MODE s) (pairs s) (fst (route_pass False s acc))"
  unfolding route_pass_flat
  by (rule route_fold_settles) (rule pairs_functional[OF assms])

lemma route_pass_quiet:
  "settled (POISON_MODE s) (pairs s) (fst acc) \<Longrightarrow> route_pass False s acc = acc"
  unfolding route_pass_flat by (rule route_fold_quiet)

lemma route_pass_send_routes [simp]:
  "route_pass force (fst (send_routes f s)) acc = route_pass force s acc"
  by (simp add: route_pass_flat)

lemma announce_quiet:
  assumes "quiet w"
  shows "quiet (announce s p d w)"
    and "map_of (w_history w) k = Some e \<Longrightarrow> map_of (w_history (announce s p d w)) k = Some e"
    and "fst ` set (w_history w) \<subseteq> fst ` set (w_history (announce s p d w))"
    and "covered s (w_history (announce s p d w)) d p"
proof -
  show "quiet (announce s p d w)"
    using assms by (simp add: announce_def quiet_def Let_def)
  show "map_of (w_history (announce s p d w)) k = Some e" if "map_of (w_history w) k = Some e"
  proof -
    have "k \<in> fst ` set (w_history w)" using that by (metis domI dom_map_of_conv_image_fst)
    then have "(p, d) \<notin> fst ` set (w_history w) \<Longrightarrow> k \<noteq> (p, d)" by blast
    then show ?thesis using that assms
      by (simp add: announce_def Let_def advertise_def update_conv' quiet_def)
  qed
  show "fst ` set (w_history w) \<subseteq> fst ` set (w_history (announce s p d w))"
    by (auto simp: announce_def Let_def advertise_def dom_update)
  show "covered s (w_history (announce s p d w)) d p"
    using assms
    by (auto simp: announce_def Let_def advertise_def covered_def quiet_def dom_update)
qed

lemma announce_noop:
  "quiet w \<Longrightarrow> covered s (w_history w) d p \<Longrightarrow> announce s p d w = w"
  by (auto simp: announce_def quiet_def covered_def)

lemma extends_refl: "quiet w \<Longrightarrow> extends w w"
  by (simp add: extends_def)

lemma extends_trans: "extends a b \<Longrightarrow> extends b c \<Longrightarrow> extends a c"
  by (simp add: extends_def)

lemma extends_announce:
  assumes "quiet w"
  shows "extends w (announce s p d w)"
  unfolding extends_def
  using announce_quiet(1)[OF assms] announce_quiet(2)[OF assms]
  by simp

lemma key_iff: "k \<in> fst ` set h \<longleftrightarrow> (\<exists>e. map_of h k = Some e)"
  using map_of_eq_None_iff[of h k] by auto

lemma covered_extends:
  assumes "extends w w'" and "covered s (w_history w) d p"
  shows "covered s (w_history w') d p"
proof (cases "(p, d) \<in> fst ` set (w_history w)")
  case True
  then obtain e where "map_of (w_history w) (p, d) = Some e" by (auto simp: key_iff)
  then have "map_of (w_history w') (p, d) = Some e" using assms(1) by (simp add: extends_def)
  then have "(p, d) \<in> fst ` set (w_history w')" unfolding key_iff by blast
  then show ?thesis by (simp add: covered_def)
next
  case False
  then show ?thesis using assms(2) by (simp add: covered_def)
qed

lemma withdraw_step_unforced:
  "withdraw_step False s rem p w =
    (if rem \<notin> set (poisonedHosts s) then (True, w) else (False, announce s p (fst rem) w))"
  by (simp add: withdraw_step_def Let_def)

lemma withdraw_ports_unforced:
  assumes "quiet w"
  shows "extends w (withdraw_ports False s rem ps w) \<and>
     (rem \<in> set (poisonedHosts s) \<longrightarrow>
        (\<forall>p\<in>set ps. covered s (w_history (withdraw_ports False s rem ps w)) (fst rem) p))"
  using assms
proof (induction ps arbitrary: w)
  case Nil
  then show ?case by (simp add: extends_refl)
next
  case (Cons p ps)
  show ?case
  proof (cases "rem \<in> set (poisonedHosts s)")
    case False
    then show ?thesis using Cons.prems by (simp add: withdraw_step_unforced extends_refl)
  next
    case True
    let ?w1 = "announce s p (fst rem) w"
    have q1: "quiet ?w1" using Cons.prems by (rule announce_quiet(1))
    have e1: "extends w ?w1" using Cons.prems by (rule extends_announce)
    have c1: "covered s (w_history ?w1) (fst rem) p" using Cons.prems by (rule announce_quiet(4))
    have IH: "extends ?w1 (withdraw_ports False s rem ps ?w1)"
      "\<forall>p\<in>set ps. covered s (w_history (withdraw_ports False s rem ps ?w1)) (fst rem) p"
      using Cons.IH[OF q1] True by auto
    have eq: "withdraw_ports False s rem (p # ps) w = withdraw_ports False s rem ps ?w1"
      using True by (simp add: withdraw_step_unforced)
    have "covered s (w_history (withdraw_ports False s rem ps ?w1)) (fst rem) p"
      using covered_extends[OF IH(1) c1] .
    then show ?thesis using eq IH extends_trans[OF e1 IH(1)] by simp
  qed
qed

lemma withdraw_fold_unforced:
  assumes "quiet w"
  shows "extends w (fold (\<lambda>rem. withdraw_ports False s rem ps) rems w) \<and>
     (\<forall>rem\<in>set rems. rem \<in> set (poisonedHosts s) \<longrightarrow>
        (\<forall>p\<in>set ps. covered s (w_history (fold (\<lambda>rem. withdraw_ports False s rem ps) rems w))
            (fst rem) p))"
  using assms
proof (induction rems arbitrary: w)
  case Nil
  then show ?case by (simp add: extends_refl)
next
  case (Cons r rems)
  let ?w1 = "withdraw_ports False s r ps w"
  let ?w2 = "fold (\<lambda>rem. withdraw_ports False s rem ps) rems ?w1"
  have s1: "extends w ?w1"
    and c1: "r \<in> set (poisonedHosts s) \<Longrightarrow> \<forall>p\<in>set ps. covered s (w_history ?w1) (fst r) p"
    using withdraw_ports_unforced[OF Cons.prems, of s r ps] by auto
  have q1: "quiet ?w1" using s1 by (simp add: extends_def)
  have IH: "extends ?w1 ?w2"
    "\<forall>rem\<in>set rems. rem \<in> set (poisonedHosts s) \<longrightarrow> (\<forall>p\<in>set ps. covered s (w_history ?w2) (fst rem) p)"
    using Cons.IH[OF q1] by auto
  have "\<forall>p\<in>set ps. covered s (w_history ?w2) (fst r) p" if "r \<in> set (poisonedHosts s)"
    using c1[OF that] covered_extends[OF IH(1)] by blast
  then show ?case using IH extends_trans[OF s1 IH(1)] by simp
qed

lemma withdraw_ports_noop:
  assumes "quiet w"
    and "rem \<in> set (poisonedHosts s) \<Longrightarrow> \<forall>p\<in>set ps. covered s (w_history w) (fst rem) p"
  shows "withdraw_ports False s rem ps w = w"
  using assms(2)
proof (induction ps)
  case Nil
  then show ?case by simp
next
  case (Cons p ps)
  show ?case
  proof (cases "rem \<in> set (poisonedHosts s)")
    case False
    then show ?thesis by (simp add: withdraw_step_unforced)
  next
    case True
    have "announce s p (fst rem) w = w"
      using assms(1) Cons.prems[OF True] by (simp add: announce_noop)
    moreover have "withdraw_ports False s rem ps w = w"
      using Cons.IH Cons.prems by simp
    ultimately show ?thesis using True by (simp add: withdraw_step_unforced)
  qed
qed

lemma withdraw_fold_noop:
  assumes "quiet w"
    and "\<forall>rem\<in>set rems. rem \<in> set (poisonedHosts s) \<longrightarrow>
           (\<forall>p\<in>set ps. covered s (w_history w) (fst rem) p)"
  shows "fold (\<lambda>rem. withdraw_ports False s rem ps) rems w = w"
  using assms(2)
proof (induction rems)
  case Nil
  then show ?case by simp
next
  case (Cons r rems)
  have "withdraw_ports False s r ps w = w"
    using assms(1) Cons.prems by (intro withdraw_ports_noop) auto
  then show ?case using Cons by simp
qed

lemma settle_poisoned_shrinks:
  "set (fst (settle_poisoned i removed pr)) \<subseteq> set (fst pr) \<and>
   set (snd pr) \<subseteq> set (snd (settle_poisoned i removed pr))"
proof (induction i removed pr rule: settle_poisoned.induct)
  case (1 i removed pr)
  note eq = settle_poisoned.simps[of i removed pr]
  show ?case
  proof (cases "i < length (fst pr)")
    case False
    then show ?thesis by (simp add: eq)
  next
    case True
    show ?thesis
    proof (cases "fst pr ! i \<in> set removed")
      case inside: True
      have "set (remove1 (fst pr ! i) (fst pr)) \<subseteq> set (fst pr)" by (rule set_remove1_subset)
      moreover have "settle_poisoned i removed pr =
          settle_poisoned (i + 1) removed (remove1 (fst pr ! i) (fst pr), snd pr @ [fst pr ! i])"
        using True inside by (simp add: eq Let_def)
      ultimately show ?thesis using 1(1)[OF True refl inside] by auto
    next
      case False
      have "settle_poisoned i removed pr = settle_poisoned (i + 1) removed pr"
        using True False by (simp add: eq Let_def)
      then show ?thesis using 1(2)[OF True refl False] by simp
    qed
  qed
qed

lemma settled_extends:
  assumes "settled poison L h"
    and "\<And>k e. map_of h k = Some e \<Longrightarrow> map_of h' k = Some e"
  shows "settled poison L h'"
  unfolding settled_def
proof (intro ballI allI impI)
  fix pk c
  assume "pk \<in> set L" "adv_cost poison (fst pk) (snd (snd pk)) = Some c"
  then have "\<not> stale h (fst pk) (fst (snd pk)) c" using assms(1) by (simp add: settled_def)
  then obtain e where e: "map_of h (fst pk, fst (snd pk)) = Some e"
    "fte_dst e = fst (snd pk)" "fte_latency e = c"
    by (auto simp: stale_def split: option.splits)
  from assms(2)[OF e(1)] e(2,3) show "\<not> stale h' (fst pk) (fst (snd pk)) c"
    by (simp add: stale_def)
qed

lemma send_routes_unforced_fields:
  assumes "POISON_MODE s"
  shows "history (fst (send_routes False s)) =
      w_history (withdraw_pass False s \<lparr> w_history = fst (route_pass False s (history s, [])),
        w_empty = emptyFwdTableList s, w_temp = [],
        w_out = snd (route_pass False s (history s, [])) \<rparr>)"
    and "emptyFwdTableList (fst (send_routes False s)) =
      w_empty (withdraw_pass False s \<lparr> w_history = fst (route_pass False s (history s, [])),
        w_empty = emptyFwdTableList s, w_temp = [],
        w_out = snd (route_pass False s (history s, [])) \<rparr>)"
    and "poisonedHosts (fst (send_routes False s)) =
      fst (settle_poisoned 0 (removedHosts s) (poisonedHosts s, removedFromPoisonedHosts s))"
    and "removedFromPoisonedHosts (fst (send_routes False s)) =
      snd (settle_poisoned 0 (removedHosts s) (poisonedHosts s, removedFromPoisonedHosts s))"
  using assms by (simp_all add: send_routes_def Let_def)

lemma send_routes_unpoisoned_history:
  "\<not> POISON_MODE s \<Longrightarrow>
   history (fst (send_routes force s)) = fst (route_pass force s (history s, []))"
  by (simp add: send_routes_def Let_def)

text \<open>
  Where the clean-up of \<open>poisonedHosts\<close> cannot matter, the history does suppress the
  repeat: of two calls of \<open>send_routes(force=False)\<close> in a row the second sends nothing
  when \<open>POISON_MODE\<close> is false, or when it is true and \<open>emptyFwdTableList\<close> is empty when
  the first call starts. The forwarding table is a dict, so its keys are distinct.
\<close>

lemma send_routes_suppressed:
  assumes d: "distinct (map fst (forwarding_table s))"
    and m: "\<not> POISON_MODE s \<or> emptyFwdTableList s = []"
  shows "snd (send_routes False (fst (send_routes False s))) = []"
proof (cases "POISON_MODE s")
  case False
  let ?s1 = "fst (send_routes False s)"
  have "settled (POISON_MODE s) (pairs s) (history ?s1)"
    using route_pass_settles[OF d] False by (simp add: send_routes_unpoisoned_history)
  then have "route_pass False s (history ?s1, []) = (history ?s1, [])"
    by (intro route_pass_quiet) simp
  then show ?thesis using False by (simp add: send_routes_def[of False ?s1] Let_def)
next
  case True
  then have empty: "emptyFwdTableList s = []" using m by simp
  let ?s1 = "fst (send_routes False s)"
  let ?rp = "route_pass False s (history s, [])"
  let ?start = "\<lparr> w_history = fst ?rp, w_empty = emptyFwdTableList s, w_temp = [], w_out = snd ?rp \<rparr>"
  let ?w = "withdraw_pass False s ?start"
  let ?ps = "map fst (peer_tables s)"
  have q0: "quiet ?start" using empty by (simp add: quiet_def)
  have ext: "extends ?start ?w"
    and cov: "\<forall>rem\<in>set (removedHosts s). rem \<in> set (poisonedHosts s) \<longrightarrow>
        (\<forall>p\<in>set ?ps. covered s (w_history ?w) (fst rem) p)"
    using withdraw_fold_unforced[OF q0, of s ?ps "removedHosts s"]
    by (simp_all add: withdraw_pass_def)
  have q: "quiet ?w" using ext unfolding extends_def by (rule conjunct1)
  have h1: "history ?s1 = w_history ?w"
    by (rule send_routes_unforced_fields(1)[OF True])
  have "emptyFwdTableList ?s1 = w_empty ?w"
    by (rule send_routes_unforced_fields(2)[OF True])
  also have "w_empty ?w = []" using q unfolding quiet_def by (rule conjunct1)
  finally have e1: "emptyFwdTableList ?s1 = []" .
  have st: "settled (POISON_MODE s) (pairs s) (fst ?rp)" by (rule route_pass_settles[OF d])
  have pres: "map_of (w_history ?w) k = Some e" if a: "map_of (fst ?rp) k = Some e" for k e
  proof -
    from ext have "\<forall>k e. map_of (w_history ?start) k = Some e \<longrightarrow>
        map_of (w_history ?w) k = Some e"
      unfolding extends_def by (rule conjunct2)
    then have "map_of (w_history ?start) k = Some e \<longrightarrow> map_of (w_history ?w) k = Some e"
      by blast
    moreover have "map_of (w_history ?start) k = Some e" using a by simp
    ultimately show ?thesis by (rule mp)
  qed
  have "settled (POISON_MODE s) (pairs s) (w_history ?w)"
    by (rule settled_extends[OF st pres])
  then have rp2: "route_pass False s (w_history ?w, []) = (w_history ?w, [])"
    by (intro route_pass_quiet) simp
  let ?again = "\<lparr> w_history = w_history ?w, w_empty = [], w_temp = [], w_out = [] \<rparr>"
  have qv: "quiet ?again" by (simp add: quiet_def)
  have sub: "set (poisonedHosts ?s1) \<subseteq> set (poisonedHosts s)"
    "set (removedFromPoisonedHosts s) \<subseteq> set (removedFromPoisonedHosts ?s1)"
    using settle_poisoned_shrinks[of 0 "removedHosts s" "(poisonedHosts s, removedFromPoisonedHosts s)"]
    by (simp_all add: send_routes_unforced_fields(3,4)[OF True])
  have cov1: "\<forall>rem\<in>set (removedHosts s). rem \<in> set (poisonedHosts ?s1) \<longrightarrow>
        (\<forall>p\<in>set ?ps. covered ?s1 (w_history ?again) (fst rem) p)"
  proof (intro ballI impI)
    fix rem p
    assume "rem \<in> set (removedHosts s)" "rem \<in> set (poisonedHosts ?s1)" "p \<in> set ?ps"
    then have "covered s (w_history ?w) (fst rem) p" using cov sub(1) by blast
    then show "covered ?s1 (w_history ?again) (fst rem) p" using sub(2) by (auto simp: covered_def)
  qed
  have "fold (\<lambda>rem. withdraw_ports False ?s1 rem ?ps) (removedHosts s) ?again = ?again"
    by (rule withdraw_fold_noop[OF qv cov1])
  then have "withdraw_pass False ?s1 ?again = ?again" by (simp add: withdraw_pass_def)
  then show ?thesis using True rp2 h1 e1 by (simp add: send_routes_def[of False ?s1] Let_def)
qed

section \<open>Two forced calls in a row\<close>

lemma in_keys: "k \<in> fst ` set h \<longleftrightarrow> map_of h k \<noteq> None"
  by (simp add: map_of_eq_None_iff)

lemma alike_refl: "alike P K w w"
  by (simp add: alike_def)

lemma alike_sym: "alike P K w w' \<Longrightarrow> alike P K w' w"
  by (simp add: alike_def)

lemma alike_trans: "alike P K a b \<Longrightarrow> alike P K b c \<Longrightarrow> alike P K a c"
  by (simp add: alike_def)

lemma alike_at: "alike P K w w' \<Longrightarrow> p \<in> P \<Longrightarrow> d \<in> K \<Longrightarrow>
    map_of (w_history w) (p, d) = map_of (w_history w') (p, d)"
  by (simp add: alike_def)

lemma alike_wipe: "d \<notin> K \<Longrightarrow> alike P K (wipe p d w) w"
  by (auto simp: alike_def wipe_def delete_conv')

lemma alike_wipe_both: "alike P K w w' \<Longrightarrow> alike P K (wipe p d w) (wipe p d w')"
  by (simp add: alike_def wipe_def delete_conv')

lemma alike_temp:
  "alike P K w w' \<Longrightarrow> alike P K (w\<lparr>w_temp := w_temp w @ xs\<rparr>) (w'\<lparr>w_temp := w_temp w' @ xs\<rparr>)"
  by (simp add: alike_def)

subsection \<open>A withdrawn destination that is in the forwarding table again\<close>

lemma purge_finite_wipe:
  "purge_finite p d kv w =
    (if d \<noteq> fst kv \<and> map_of (w_history w) (p, d) \<noteq> None then wipe p d w
     else if d = fst kv then w\<lparr>w_temp := w_temp w @ [(p, fst kv)]\<rparr> else w)"
  by (simp add: purge_finite_def Let_def in_keys wipe_def)

lemma purge_poisoned_wipe:
  "purge_poisoned s p d kv w =
    (if fst kv = d \<and> fte_port (snd kv) = p then w\<lparr>w_temp := w_temp w @ [(p, fst kv)]\<rparr>
     else if map_of (w_history w) (p, d) \<noteq> None
       then (if (d, p) \<in> set (removedFromPoisonedHosts s) then w else wipe p d w)
       else w)"
  by (simp add: purge_poisoned_def Let_def in_keys wipe_def)

lemma purge_finite_alike:
  assumes "alike P K w w'" "p \<in> P" "d \<in> K"
  shows "alike P K (purge_finite p d kv w) (purge_finite p d kv w')"
  using alike_at[OF assms] assms(1)
  by (simp add: purge_finite_wipe alike_wipe_both alike_temp)

lemma purge_poisoned_alike:
  assumes "alike P K w w'" "p \<in> P" "d \<in> K"
  shows "alike P K (purge_poisoned s p d kv w) (purge_poisoned s p d kv w')"
  using alike_at[OF assms] assms(1)
  by (simp add: purge_poisoned_wipe alike_wipe_both alike_temp)

lemma fold_purge_finite_alike:
  assumes "p \<in> P" "d \<in> K"
  shows "alike P K w w' \<Longrightarrow>
    alike P K (fold (purge_finite p d) ft w) (fold (purge_finite p d) ft w')"
  by (induction ft arbitrary: w w') (simp_all add: purge_finite_alike[OF _ assms])

lemma fold_purge_poisoned_alike:
  assumes "p \<in> P" "d \<in> K"
  shows "alike P K w w' \<Longrightarrow>
    alike P K (fold (purge_poisoned s p d) ft w) (fold (purge_poisoned s p d) ft w')"
  by (induction ft arbitrary: w w') (simp_all add: purge_poisoned_alike[OF _ assms])

lemma forced_purge_full:
  "forwarding_table s \<noteq> [] \<Longrightarrow>
   forced_purge s p d w =
    (case map_of (w_history w) (p, d) of
       None \<Rightarrow> (False, w)
     | Some val \<Rightarrow>
        if fte_latency val \<noteq> INFINITY
        then (False, fold (purge_finite p d) (forwarding_table s) w)
        else (False, fold (purge_poisoned s p d) (forwarding_table s) w))"
  by (simp add: forced_purge_def Let_def split: option.split)

lemma forced_purge_alike:
  assumes "alike P K w w'" "p \<in> P" "d \<in> K" "forwarding_table s \<noteq> []"
  shows "fst (forced_purge s p d w) = fst (forced_purge s p d w') \<and>
     alike P K (snd (forced_purge s p d w)) (snd (forced_purge s p d w'))"
proof -
  have eq: "map_of (w_history w) (p, d) = map_of (w_history w') (p, d)"
    by (rule alike_at[OF assms(1,2,3)])
  show ?thesis
  proof (cases "map_of (w_history w') (p, d)")
    case None
    then show ?thesis using eq assms(1) by (simp add: forced_purge_full[OF assms(4)])
  next
    case (Some val)
    then show ?thesis
      using eq fold_purge_finite_alike[OF assms(2,3,1)] fold_purge_poisoned_alike[OF assms(2,3,1)]
      by (simp add: forced_purge_full[OF assms(4)])
  qed
qed

subsection \<open>A withdrawn destination that the forwarding table does not hold\<close>

lemma wipe_gone [simp]: "map_of (w_history (wipe p d w)) (p, d) = None"
  by (simp add: wipe_def delete_conv')

lemma fold_purge_finite_stranger:
  assumes "d \<notin> fst ` set ft"
  shows "fold (purge_finite p d) ft w =
    (if ft = [] \<or> map_of (w_history w) (p, d) = None then w else wipe p d w)"
  using assms
proof (induction ft arbitrary: w)
  case Nil
  then show ?case by simp
next
  case (Cons kv ft)
  then have ne: "d \<noteq> fst kv" and rest: "d \<notin> fst ` set ft" by auto
  have step: "fold (purge_finite p d) (kv # ft) w =
      fold (purge_finite p d) ft (purge_finite p d kv w)" by simp
  show ?case
  proof (cases "map_of (w_history w) (p, d) = None")
    case True
    have "purge_finite p d kv w = w" using ne True by (simp add: purge_finite_wipe)
    then have "fold (purge_finite p d) (kv # ft) w = fold (purge_finite p d) ft w"
      using step by simp
    also have "\<dots> = w" using Cons.IH[OF rest, of w] True by simp
    finally show ?thesis using True by simp
  next
    case False
    have "purge_finite p d kv w = wipe p d w" using ne False by (simp add: purge_finite_wipe)
    then have "fold (purge_finite p d) (kv # ft) w = fold (purge_finite p d) ft (wipe p d w)"
      using step by simp
    also have "\<dots> = wipe p d w" using Cons.IH[OF rest, of "wipe p d w"] by simp
    finally show ?thesis using False by auto
  qed
qed

lemma fold_purge_poisoned_stranger:
  assumes "d \<notin> fst ` set ft"
  shows "fold (purge_poisoned s p d) ft w =
    (if ft = [] \<or> map_of (w_history w) (p, d) = None \<or> (d, p) \<in> set (removedFromPoisonedHosts s)
     then w else wipe p d w)"
  using assms
proof (induction ft arbitrary: w)
  case Nil
  then show ?case by simp
next
  case (Cons kv ft)
  then have ne: "fst kv \<noteq> d" and rest: "d \<notin> fst ` set ft" by auto
  have step: "fold (purge_poisoned s p d) (kv # ft) w =
      fold (purge_poisoned s p d) ft (purge_poisoned s p d kv w)" by simp
  show ?case
  proof (cases "map_of (w_history w) (p, d) = None \<or> (d, p) \<in> set (removedFromPoisonedHosts s)")
    case True
    have "purge_poisoned s p d kv w = w" using ne True by (auto simp: purge_poisoned_wipe)
    then have "fold (purge_poisoned s p d) (kv # ft) w = fold (purge_poisoned s p d) ft w"
      using step by simp
    also have "\<dots> = w" using Cons.IH[OF rest, of w] True by auto
    finally show ?thesis using True by auto
  next
    case False
    have "purge_poisoned s p d kv w = wipe p d w"
      using ne False by (simp add: purge_poisoned_wipe)
    then have "fold (purge_poisoned s p d) (kv # ft) w =
        fold (purge_poisoned s p d) ft (wipe p d w)"
      using step by simp
    also have "\<dots> = wipe p d w" using Cons.IH[OF rest, of "wipe p d w"] by simp
    finally show ?thesis using False by auto
  qed
qed

lemma forced_purge_stranger:
  assumes "forwarding_table s \<noteq> []" "d \<notin> fst ` set (forwarding_table s)"
  shows "\<not> fst (forced_purge s p d w)"
    and "alike P (fst ` set (forwarding_table s)) (snd (forced_purge s p d w)) w"
    and "(d, p) \<notin> set (removedFromPoisonedHosts s) \<Longrightarrow>
         map_of (w_history (snd (forced_purge s p d w))) (p, d) = None"
proof -
  let ?K = "fst ` set (forwarding_table s)"
  have cases: "forced_purge s p d w = (False, w) \<or> forced_purge s p d w = (False, wipe p d w)"
    by (simp add: forced_purge_full[OF assms(1)] fold_purge_finite_stranger[OF assms(2)]
        fold_purge_poisoned_stranger[OF assms(2)] split: option.split)
  then show "\<not> fst (forced_purge s p d w)" by auto
  show "alike P ?K (snd (forced_purge s p d w)) w"
    using cases alike_wipe[OF assms(2), of P p w] by (auto simp: alike_refl)
  show "map_of (w_history (snd (forced_purge s p d w))) (p, d) = None"
    if "(d, p) \<notin> set (removedFromPoisonedHosts s)"
    using that assms(1)
    by (simp add: forced_purge_full[OF assms(1)] fold_purge_finite_stranger[OF assms(2)]
        fold_purge_poisoned_stranger[OF assms(2)] split: option.split)
qed

subsection \<open>The announcement and the loops\<close>

lemma announce_alike:
  assumes "alike P K w w'"
    and "(map_of (w_history w) (p, d) = None \<longleftrightarrow> map_of (w_history w') (p, d) = None) \<or>
         (d, p) \<in> set (removedFromPoisonedHosts s)"
  shows "alike P K (announce s p d w) (announce s p d w')"
proof (cases "(d, p) \<in> set (removedFromPoisonedHosts s)")
  case True
  then show ?thesis using assms(1) by (simp add: announce_def)
next
  case False
  then have "map_of (w_history w) (p, d) = None \<longleftrightarrow> map_of (w_history w') (p, d) = None"
    using assms(2) by simp
  then show ?thesis using assms(1)
    by (auto simp: announce_def Let_def in_keys alike_def advertise_def update_conv')
qed

lemma withdraw_step_alike:
  assumes "alike P (fst ` set (forwarding_table s)) w w'" "p \<in> P" "forwarding_table s \<noteq> []"
  shows "fst (withdraw_step True s rem p w) = fst (withdraw_step True s rem p w') \<and>
     alike P (fst ` set (forwarding_table s))
       (snd (withdraw_step True s rem p w)) (snd (withdraw_step True s rem p w'))"
proof -
  let ?K = "fst ` set (forwarding_table s)"
  let ?d = "fst rem"
  let ?r = "forced_purge s p ?d w"
  let ?r' = "forced_purge s p ?d w'"
  have step: "withdraw_step True s rem p v =
      (if fst (forced_purge s p ?d v) then (True, snd (forced_purge s p ?d v))
       else (False, announce s p ?d (snd (forced_purge s p ?d v))))" for v
    by (simp add: withdraw_step_def Let_def)
  show ?thesis
  proof (cases "?d \<in> ?K")
    case True
    have f: "fst ?r = fst ?r'" and a: "alike P ?K (snd ?r) (snd ?r')"
      using forced_purge_alike[OF assms(1,2) True assms(3)] by simp_all
    have "map_of (w_history (snd ?r)) (p, ?d) = map_of (w_history (snd ?r')) (p, ?d)"
      by (rule alike_at[OF a assms(2) True])
    then have "alike P ?K (announce s p ?d (snd ?r)) (announce s p ?d (snd ?r'))"
      by (intro announce_alike[OF a]) simp
    then show ?thesis using f a by (simp add: step)
  next
    case False
    have nb: "\<not> fst ?r" "\<not> fst ?r'"
      by (rule forced_purge_stranger(1)[OF assms(3) False])+
    have "alike P ?K (snd ?r) w" "alike P ?K (snd ?r') w'"
      by (rule forced_purge_stranger(2)[OF assms(3) False])+
    then have a: "alike P ?K (snd ?r) (snd ?r')"
      using assms(1) alike_trans alike_sym by blast
    have "(map_of (w_history (snd ?r)) (p, ?d) = None \<longleftrightarrow>
           map_of (w_history (snd ?r')) (p, ?d) = None) \<or>
          (?d, p) \<in> set (removedFromPoisonedHosts s)"
      using forced_purge_stranger(3)[OF assms(3) False, of p w]
        forced_purge_stranger(3)[OF assms(3) False, of p w'] by auto
    then have "alike P ?K (announce s p ?d (snd ?r)) (announce s p ?d (snd ?r'))"
      by (rule announce_alike[OF a])
    then show ?thesis using nb by (simp add: step)
  qed
qed

lemma withdraw_ports_alike:
  assumes "forwarding_table s \<noteq> []" "set ps \<subseteq> P"
  shows "alike P (fst ` set (forwarding_table s)) w w' \<Longrightarrow>
    alike P (fst ` set (forwarding_table s))
      (withdraw_ports True s rem ps w) (withdraw_ports True s rem ps w')"
  using assms(2)
proof (induction ps arbitrary: w w')
  case Nil
  then show ?case by simp
next
  case (Cons p ps)
  have p: "p \<in> P" and rest: "set ps \<subseteq> P" using Cons.prems(2) by auto
  from withdraw_step_alike[OF Cons.prems(1) p assms(1), of rem]
  have f: "fst (withdraw_step True s rem p w) = fst (withdraw_step True s rem p w')"
    and a: "alike P (fst ` set (forwarding_table s))
       (snd (withdraw_step True s rem p w)) (snd (withdraw_step True s rem p w'))" by simp_all
  show ?case using f a Cons.IH[OF a rest] by (simp add: Let_def)
qed

lemma withdraw_pass_alike:
  assumes "forwarding_table s \<noteq> []"
    and "alike (fst ` set (peer_tables s)) (fst ` set (forwarding_table s)) w w'"
  shows "alike (fst ` set (peer_tables s)) (fst ` set (forwarding_table s))
      (withdraw_pass True s w) (withdraw_pass True s w')"
proof -
  let ?P = "fst ` set (peer_tables s)"
  let ?K = "fst ` set (forwarding_table s)"
  let ?ps = "map fst (peer_tables s)"
  have sub: "set ?ps \<subseteq> ?P" by simp
  have "alike ?P ?K v v' \<Longrightarrow>
      alike ?P ?K (fold (\<lambda>rem. withdraw_ports True s rem ?ps) rems v)
        (fold (\<lambda>rem. withdraw_ports True s rem ?ps) rems v')" for rems v v'
  proof (induction rems arbitrary: v v')
    case Nil
    then show ?case by simp
  next
    case (Cons r rems)
    have "alike ?P ?K (withdraw_ports True s r ?ps v) (withdraw_ports True s r ?ps v')"
      by (rule withdraw_ports_alike[OF assms(1) sub Cons.prems])
    from Cons.IH[OF this] show ?case by simp
  qed
  from this[OF assms(2)] show ?thesis unfolding withdraw_pass_def .
qed

subsection \<open>What a forced call leaves behind\<close>

lemma purge_finite_empty: "w_empty (fold (purge_finite p d) ft w) = w_empty w"
  by (induction ft arbitrary: w) (simp_all add: purge_finite_def Let_def)

lemma purge_poisoned_empty: "w_empty (fold (purge_poisoned s p d) ft w) = w_empty w"
  by (induction ft arbitrary: w) (simp_all add: purge_poisoned_def Let_def)

lemma announce_empty: "w_empty (announce s p d w) = w_empty w"
  by (simp add: announce_def Let_def)

lemma withdraw_step_empty:
  assumes "forwarding_table s \<noteq> []"
  shows "w_empty (snd (withdraw_step force s rem p w)) = w_empty w"
  by (simp add: withdraw_step_def Let_def forced_purge_full[OF assms] announce_empty
      purge_finite_empty purge_poisoned_empty split: option.split)

lemma withdraw_ports_empty:
  assumes "forwarding_table s \<noteq> []"
  shows "w_empty (withdraw_ports force s rem ps w) = w_empty w"
  by (induction ps arbitrary: w) (simp_all add: Let_def withdraw_step_empty[OF assms])

lemma withdraw_pass_empty:
  assumes "forwarding_table s \<noteq> []"
  shows "w_empty (withdraw_pass force s w) = w_empty w"
proof -
  have "w_empty (fold (\<lambda>rem. withdraw_ports force s rem ps) rems w) = w_empty w" for ps rems
    by (induction rems arbitrary: w) (simp_all add: withdraw_ports_empty[OF assms])
  then show ?thesis by (simp add: withdraw_pass_def)
qed

lemma withdraw_pass_cong:
  assumes "forwarding_table s' = forwarding_table s"
    and "removedFromPoisonedHosts s' = removedFromPoisonedHosts s"
    and "trickledHosts s' = trickledHosts s"
    and "poisonedHosts s' = poisonedHosts s"
    and "removedHosts s' = removedHosts s"
    and "peer_tables s' = peer_tables s"
  shows "withdraw_pass force s' w = withdraw_pass force s w"
proof -
  have 1: "purge_poisoned s' = purge_poisoned s"
    by (intro ext) (simp only: purge_poisoned_def assms(2))
  have 2: "announce s' = announce s"
    by (intro ext) (simp only: announce_def assms(2,3))
  have 3: "forced_purge s' = forced_purge s"
    by (intro ext) (simp only: forced_purge_def assms(1) 1)
  have 4: "withdraw_step force s' = withdraw_step force s"
    by (intro ext) (simp only: withdraw_step_def assms(4) 2 3)
  have 5: "withdraw_ports force s' rem ps v = withdraw_ports force s rem ps v" for rem ps v
    by (induction ps arbitrary: v) (simp_all add: 4 Let_def)
  have 6: "withdraw_ports force s' rem ps = withdraw_ports force s rem ps" for rem ps
    by (intro ext) (rule 5)
  show ?thesis using assms(5,6) by (simp add: withdraw_pass_def 6)
qed

lemma route_forced_agree:
  assumes "(p, k, i) \<in> set L"
  shows "map_of (fst (fold (\<lambda>pk. route_step True True (fst pk) (snd pk)) L acc)) (p, k) =
     map_of (fst (fold (\<lambda>pk. route_step True True (fst pk) (snd pk)) L acc')) (p, k)"
  using assms
proof (induction L rule: rev_induct)
  case Nil
  then show ?case by simp
next
  case (snoc x L)
  let ?a = "fold (\<lambda>pk. route_step True True (fst pk) (snd pk)) L acc"
  let ?a' = "fold (\<lambda>pk. route_step True True (fst pk) (snd pk)) L acc'"
  obtain c where c: "adv_cost True (fst x) (snd (snd x)) = Some c" by (simp add: adv_cost_def)
  have step: "map_of (fst (route_step True True (fst x) (snd x) b)) key =
      (if key = (fst x, fst (snd x))
       then Some (ForwardingTableEntry (fst (snd x)) (fst x) c)
       else map_of (fst b) key)" for b key
    using c by (auto simp: route_step_alt advertise_def update_conv')
  show ?case
  proof (cases "(p, k) = (fst x, fst (snd x))")
    case True
    then show ?thesis by (simp add: step)
  next
    case False
    then have "(p, k, i) \<noteq> x" by auto
    then have "(p, k, i) \<in> set L" using snoc.prems by simp
    then have "map_of (fst ?a) (p, k) = map_of (fst ?a') (p, k)" by (rule snoc.IH)
    then show ?thesis using False by (auto simp: step)
  qed
qed

lemma send_routes_forced_fields:
  assumes "POISON_MODE s"
  shows "snd (send_routes True s) =
      w_out (withdraw_pass True s \<lparr> w_history = fst (route_pass True s (history s, [])),
        w_empty = emptyFwdTableList s, w_temp = [],
        w_out = snd (route_pass True s (history s, [])) \<rparr>)"
    and "emptyFwdTableList (fst (send_routes True s)) =
      w_empty (withdraw_pass True s \<lparr> w_history = fst (route_pass True s (history s, [])),
        w_empty = emptyFwdTableList s, w_temp = [],
        w_out = snd (route_pass True s (history s, [])) \<rparr>)"
    and "poisonedHosts (fst (send_routes True s)) = poisonedHosts s"
    and "removedFromPoisonedHosts (fst (send_routes True s)) = removedFromPoisonedHosts s"
  using assms by (simp_all add: send_routes_def Let_def)

lemma send_routes_forced_repeat:
  assumes poison: "POISON_MODE s" and ne: "forwarding_table s \<noteq> []"
  shows "snd (send_routes True (fst (send_routes True s))) = snd (send_routes True s)"
proof -
  let ?s1 = "fst (send_routes True s)"
  let ?P = "fst ` set (peer_tables s)"
  let ?K = "fst ` set (forwarding_table s)"
  let ?rp = "route_pass True s (history s, [])"
  let ?rq = "route_pass True s (history ?s1, [])"
  let ?v = "\<lparr> w_history = fst ?rp, w_empty = emptyFwdTableList s, w_temp = [],
             w_out = snd ?rp \<rparr>"
  let ?u = "\<lparr> w_history = fst ?rq, w_empty = emptyFwdTableList ?s1, w_temp = [],
             w_out = snd ?rq \<rparr>"
  have first: "snd (send_routes True s) = w_out (withdraw_pass True s ?v)"
    by (rule send_routes_forced_fields(1)[OF poison])
  have poison1: "POISON_MODE ?s1" using poison by simp
  have "snd (send_routes True ?s1) = w_out (withdraw_pass True ?s1 ?u)"
    using send_routes_forced_fields(1)[OF poison1] by simp
  also have "withdraw_pass True ?s1 ?u = withdraw_pass True s ?u"
    by (rule withdraw_pass_cong) (simp_all add: send_routes_forced_fields(3,4)[OF poison])
  finally have second: "snd (send_routes True ?s1) = w_out (withdraw_pass True s ?u)" .
  have "emptyFwdTableList ?s1 = w_empty (withdraw_pass True s ?v)"
    by (rule send_routes_forced_fields(2)[OF poison])
  also have "\<dots> = w_empty ?v" by (rule withdraw_pass_empty[OF ne])
  finally have e: "emptyFwdTableList ?s1 = emptyFwdTableList s" by simp
  have o: "snd ?rq = snd ?rp" by (simp add: route_ads_forced)
  have h: "map_of (fst ?rp) (p, k) = map_of (fst ?rq) (p, k)"
    if pp: "p \<in> ?P" and kk: "k \<in> ?K" for p k
  proof -
    obtain i where "(k, i) \<in> set (forwarding_table s)" using kk by auto
    then have "(p, k, i) \<in> set (pairs s)" using pp by (simp add: pairs_def)
    then show ?thesis using poison by (simp add: route_pass_flat route_forced_agree)
  qed
  have "alike ?P ?K ?v ?u" using e o h by (simp add: alike_def)
  then have "alike ?P ?K (withdraw_pass True s ?v) (withdraw_pass True s ?u)"
    by (rule withdraw_pass_alike[OF ne])
  then have "w_out (withdraw_pass True s ?v) = w_out (withdraw_pass True s ?u)"
    by (simp add: alike_def)
  then show ?thesis using first second by simp
qed

text \<open>
  C6, as amended. Two calls of \<open>send_routes(force=True)\<close> in a row send the same route
  advertisements for the forwarding table, in the same order. They send the same multiset
  of packets altogether when the forwarding table is not empty, or \<open>POISON_MODE\<close> is off,
  or \<open>removedHosts\<close> is empty: what is left out is the poison for a withdrawn destination
  while the forwarding table is empty, which \<open>emptyFwdTableList\<close> lets through once.
\<close>

theorem send_routes_forced_twice:
  "route_ads True (fst (send_routes True s)) = route_ads True s \<and>
   (forwarding_table s \<noteq> [] \<or> \<not> POISON_MODE s \<or> removedHosts s = [] \<longrightarrow>
      mset (snd (send_routes True (fst (send_routes True s)))) = mset (snd (send_routes True s)))"
proof -
  have 1: "route_ads True (fst (send_routes True s)) = route_ads True s"
    by (simp add: route_ads_forced_eq)
  have "snd (send_routes True (fst (send_routes True s))) = snd (send_routes True s)"
    if "forwarding_table s \<noteq> [] \<or> \<not> POISON_MODE s \<or> removedHosts s = []"
  proof (cases "\<not> POISON_MODE s \<or> removedHosts s = []")
    case True
    have "snd (send_routes True s) = route_ads True s"
      using send_routes_out[of True s] True by auto
    moreover have "\<not> POISON_MODE (fst (send_routes True s)) \<or>
        removedHosts (fst (send_routes True s)) = []" using True by simp
    then have "snd (send_routes True (fst (send_routes True s))) =
        route_ads True (fst (send_routes True s))"
      using send_routes_out[of True "fst (send_routes True s)"] by auto
    ultimately show ?thesis using 1 by simp
  next
    case False
    then have "POISON_MODE s" "forwarding_table s \<noteq> []" using that by auto
    then show ?thesis by (rule send_routes_forced_repeat)
  qed
  then show ?thesis using 1 by auto
qed

section \<open>Latencies after a route advertisement\<close>

lemma set_update_subset: "set (AList.update k v xs) \<subseteq> insert (k, v) (set xs)"
  by (induction xs) auto

lemma capped_update:
  "capped ft \<Longrightarrow> fte_latency v \<le> INFINITY \<Longrightarrow> capped (AList.update k v ft)"
  using set_update_subset[of k v ft] by (auto simp: capped_def list_all_iff)

lemma uft_entry_capped:
  "capped ft \<Longrightarrow> uft_entry s p hv ft = Normal ft' \<Longrightarrow> capped ft'"
  by (auto simp: uft_entry_def Let_def capped_update split: option.splits if_splits)

lemma uft_hosts_capped:
  "capped ft \<Longrightarrow> uft_hosts s p hvs ft = Normal ft' \<Longrightarrow> capped ft'"
proof (induction hvs arbitrary: ft)
  case Nil
  then show ?case by simp
next
  case (Cons hv hvs)
  then show ?case
    by (cases "uft_entry s p hv ft") (auto dest: uft_entry_capped)
qed

lemma uft_ports_capped:
  "capped ft \<Longrightarrow> uft_ports s pts ft = Normal ft' \<Longrightarrow> capped ft'"
proof (induction pts arbitrary: ft)
  case Nil
  then show ?case by simp
next
  case (Cons pt pts)
  then show ?case
    by (cases "uft_hosts s (fst pt) (snd pt) ft") (auto dest: uft_hosts_capped)
qed

lemma update_forwarding_table_capped:
  assumes "update_forwarding_table s = Normal s'"
  shows "capped (forwarding_table s')" and "peer_tables s' = peer_tables s"
proof -
  obtain ft where ft: "uft_ports s (peer_tables s) [] = Normal ft" "s' = s\<lparr>forwarding_table := ft\<rparr>"
    using assms by (cases "uft_ports s (peer_tables s) []") (auto simp: update_forwarding_table_def)
  have "capped []" by (simp add: capped_def)
  then have "capped ft" using ft(1) by (rule uft_ports_capped)
  then show "capped (forwarding_table s')" using ft(2) by simp
  show "peer_tables s' = peer_tables s" using ft(2) by simp
qed

lemma update_forwarding_table_returns:
  assumes "distinct (map fst (peer_tables s))"
    and "fst ` set (peer_tables s) \<subseteq> fst ` set (link_latency s)"
  shows "\<exists>s'. update_forwarding_table s = Normal s'"
  using uft_ports_fold[OF assms(1) subset_refl assms(2), of "[]"]
  by (simp add: update_forwarding_table_def)

text \<open>
  Under the invariant of the handlers (every port with a peer table has a link latency),
  the handler returns.
\<close>

lemma handle_route_advertisement_returns:
  assumes "distinct (map fst (peer_tables s))"
    and "fst ` set (peer_tables s) \<subseteq> fst ` set (link_latency s)"
    and "port \<in> fst ` set (peer_tables s)"
  shows "\<exists>r. handle_route_advertisement now d port route_latency s = Normal r"
proof -
  obtain t where t: "map_of (peer_tables s) port = Some t"
    using assms(3) by (auto simp: key_iff)
  let ?s1 = "s\<lparr> peer_tables := AList.update port
       (AList.update d (PeerTableEntry d route_latency (At (now + ROUTE_TTL))) t) (peer_tables s) \<rparr>"
  have "distinct (map fst (peer_tables ?s1))" using assms(1) by (simp add: distinct_update)
  moreover have "fst ` set (peer_tables ?s1) \<subseteq> fst ` set (link_latency ?s1)"
    using assms(2,3) by (auto simp: dom_update)
  ultimately obtain s2 where "update_forwarding_table ?s1 = Normal s2"
    using update_forwarding_table_returns by blast
  then show ?thesis using t by (simp add: handle_route_advertisement_def Let_def)
qed

text \<open>
  C9, as amended. When \<open>handle_route_advertisement(dst, port, latency)\<close> returns, the peer
  table of \<open>port\<close> holds the latency as the neighbour sent it, whatever its value, and
  every latency in the forwarding table is at most 16.
\<close>

theorem handle_route_advertisement_latencies:
  assumes "handle_route_advertisement now d port route_latency s = Normal (s', out)"
  shows "list_all (\<lambda>kv. fte_latency (snd kv) \<le> 16) (forwarding_table s') \<and>
     (\<exists>t. map_of (peer_tables s') port = Some t \<and>
          map_of t d = Some (PeerTableEntry d route_latency (At (now + 15))))"
proof -
  obtain t where t: "map_of (peer_tables s) port = Some t"
    using assms by (cases "map_of (peer_tables s) port") (auto simp: handle_route_advertisement_def)
  let ?e = "PeerTableEntry d route_latency (At (now + ROUTE_TTL))"
  let ?s1 = "s\<lparr> peer_tables := AList.update port (AList.update d ?e t) (peer_tables s) \<rparr>"
  obtain s2 where s2: "update_forwarding_table ?s1 = Normal s2" "send_routes False s2 = (s', out)"
    using assms t
    by (cases "update_forwarding_table ?s1") (auto simp: handle_route_advertisement_def Let_def)
  have ft: "forwarding_table s' = forwarding_table s2" and pt: "peer_tables s' = peer_tables s2"
    using send_routes_fields(4,2)[of False s2] s2(2) by simp_all
  have "capped (forwarding_table s2)" and "peer_tables s2 = peer_tables ?s1"
    using update_forwarding_table_capped[OF s2(1)] by simp_all
  then have "capped (forwarding_table s')"
    and "map_of (peer_tables s') port = Some (AList.update d ?e t)"
    using ft pt by (simp_all add: update_conv')
  moreover have "map_of (AList.update d ?e t) d = Some ?e" by (simp add: update_conv')
  ultimately show ?thesis by (simp add: capped_def INFINITY_def ROUTE_TTL_def)
qed

section \<open>Examples\<close>

lemma two_links_reached: "run [LinkUp 1 1, LinkUp 2 1] (init True) = Normal two_links"
  by code_simp

lemma learned_B_reached: "run [RouteAd 0 ''B'' 1 2] two_links = Normal learned_B"
  by code_simp

text \<open>
  The first time the link on port 1 goes down, the poison for \<open>B\<close> goes out on port 2.
\<close>

lemma withdrawn_B_reached:
  "handle_link_down 1 learned_B = Normal (withdrawn_B, [(RoutePacket ''B'' 16, 2)])"
  by code_simp

lemma relearned_B_reached:
  "run [LinkUp 1 1, RouteAd 1 ''B'' 1 2] withdrawn_B = Normal relearned_B"
  by code_simp

lemma plain_withdrawn_reached:
  "run [LinkUp 1 1, LinkUp 2 1, LinkUp 3 1, RouteAd 0 ''B'' 1 2, RouteAd 0 ''A'' 2 2,
        LinkDown 1] (init False) = Normal plain_withdrawn"
  by code_simp

lemma host_and_route_reached:
  "run [StaticRoute ''A'' 1, RouteAd 0 ''B'' 2 3] two_links = Normal host_and_route"
  by code_simp

lemma four_withdrawn_reached:
  "run [RouteAd 0 ''A'' 1 2, RouteAd 0 ''B'' 1 2, RouteAd 0 ''C'' 1 2, RouteAd 0 ''D'' 1 2,
        LinkDown 1, Timer 5] two_links = Normal four_withdrawn"
  by code_simp

lemma three_links_offers: "offers three_links ''B'' = [(1, 3), (3, 3)]"
  by (simp add: three_links_def init_def offers_def offers_in_def cost_def INFINITY_def)

theorem update_forwarding_table_minimum_witness:
  "\<exists>s'. update_forwarding_table three_links = Normal s' \<and>
     filter (\<lambda>kv. fst kv = ''B'') (forwarding_table s') = [(''B'', ForwardingTableEntry ''B'' 1 3)]"
proof -
  have w: "wf_router three_links" by (simp add: three_links_def init_def wf_router_def)
  have l: "fst ` set (peer_tables three_links) \<subseteq> fst ` set (link_latency three_links)"
    by (simp add: three_links_def init_def)
  have q: "(3, [(''B'', PeerTableEntry ''B'' 1 (At 15))]) \<in> set (peer_tables three_links)"
    by (simp add: three_links_def init_def)
  have n: "''B'' \<in> fst ` set [(''B'', PeerTableEntry ''B'' 1 (At 15))]" by simp
  from update_forwarding_table_minimum[OF w l q n] show ?thesis
    by (auto simp: three_links_offers split: if_splits)
qed



theorem send_routes_no_withdrawal_without_poison_witness:
  "removedHosts plain_withdrawn = [(''B'', 1)] \<and>
   snd (send_routes True plain_withdrawn) = [(RoutePacket ''A'' 3, 3)] \<and>
   poisonedHosts (fst (send_routes True plain_withdrawn)) = [(''B'', 1)] \<and>
   removedFromPoisonedHosts (fst (send_routes True plain_withdrawn)) = []"
proof -
  have np: "\<not> POISON_MODE plain_withdrawn" by (simp add: plain_withdrawn_def init_def)
  have ads: "route_ads True plain_withdrawn = [(RoutePacket ''A'' 3, 3)]" by code_simp
  have lists: "removedHosts plain_withdrawn = [(''B'', 1)]"
    "poisonedHosts plain_withdrawn = [(''B'', 1)]"
    "removedFromPoisonedHosts plain_withdrawn = []"
    by (simp_all add: plain_withdrawn_def init_def)
  from send_routes_no_withdrawal_without_poison[OF np, of True] show ?thesis
    by (simp add: ads lists)
qed

theorem send_routes_forced_twice_witness:
  "forwarding_table relearned_B \<noteq> [] \<and> POISON_MODE relearned_B \<and>
   removedHosts relearned_B = [(''B'', 1)] \<and>
   mset (snd (send_routes True (fst (send_routes True relearned_B)))) =
   mset (snd (send_routes True relearned_B))"
proof -
  have a: "forwarding_table relearned_B \<noteq> []" "POISON_MODE relearned_B"
    "removedHosts relearned_B = [(''B'', 1)]"
    by (simp_all add: relearned_B_def withdrawn_B_def two_links_def init_def)
  then show ?thesis using send_routes_forced_twice[of relearned_B] by simp
qed

theorem send_routes_forced_twice_counterexample:
  "mset (snd (send_routes True (fst (send_routes True withdrawn_B)))) \<noteq>
   mset (snd (send_routes True withdrawn_B))"
proof -
  have "snd (send_routes True withdrawn_B) = [(RoutePacket ''B'' 16, 2)]" by code_simp
  moreover have "snd (send_routes True (fst (send_routes True withdrawn_B))) = []" by code_simp
  ultimately show ?thesis by simp
qed

lemma send_routes_suppressed_example:
  "snd (send_routes False (learned_B\<lparr>history := []\<rparr>)) =
     [(RoutePacket ''B'' 16, 1), (RoutePacket ''B'' 3, 2)] \<and>
   snd (send_routes False (fst (send_routes False (learned_B\<lparr>history := []\<rparr>)))) = []"
proof -
  have "distinct (map fst (forwarding_table (learned_B\<lparr>history := []\<rparr>)))"
    and "\<not> POISON_MODE (learned_B\<lparr>history := []\<rparr>) \<or>
         emptyFwdTableList (learned_B\<lparr>history := []\<rparr>) = []"
    by (simp_all add: learned_B_def two_links_def init_def)
  then have "snd (send_routes False (fst (send_routes False (learned_B\<lparr>history := []\<rparr>)))) = []"
    by (rule send_routes_suppressed)
  moreover have "snd (send_routes False (learned_B\<lparr>history := []\<rparr>)) =
     [(RoutePacket ''B'' 16, 1), (RoutePacket ''B'' 3, 2)]" by code_simp
  ultimately show ?thesis by simp
qed

text \<open>
  C5. Of two calls of \<open>send_routes(force=False)\<close> in a row the second is to send nothing.
  After four destinations were withdrawn and a timer tick has filled \<open>emptyFwdTableList\<close>,
  the first call announces the two pairs still in \<open>poisonedHosts\<close>; its clean-up loop
  removes from the list it walks, so it skips the second pair, and the second call sends
  that poison again.
\<close>

theorem send_routes_repeats_poison:
  "snd (send_routes False four_withdrawn) =
     [(RoutePacket ''B'' 16, 2), (RoutePacket ''D'' 16, 2)] \<and>
   poisonedHosts (fst (send_routes False four_withdrawn)) = [(''D'', 1)] \<and>
   snd (send_routes False (fst (send_routes False four_withdrawn))) =
     [(RoutePacket ''D'' 16, 2)]"
  by code_simp

text \<open>
  C3. \<open>expire_routes\<close> is to remove every entry whose time has passed; an entry that never
  expires is to be skipped. The loop leaves the whole function at the first such entry
  instead: at time 100 the route to \<open>B\<close>, which expired at 15, stays in the peer table of
  port 2, because the static host \<open>A\<close> on port 1 is met first.
\<close>

theorem expire_routes_stops_at_static_host:
  "expire_routes 100 host_and_route = Normal host_and_route"
  by code_simp

text \<open>
  With no static host in the way the expired entry is removed, and marked as withdrawn.
\<close>

lemma expire_routes_removes_expired:
  "expire_routes 100 learned_B =
     Normal (learned_B\<lparr> peer_tables := [(1, []), (2, [])], forwarding_table := [],
       removedHosts := [(''B'', 1)], poisonedHosts := [(''B'', 1)] \<rparr>)"
  by code_simp

text \<open>
  C4. The second time the link on port 1 goes down while it carries the only route to
  \<open>B\<close>, the handler sends nothing on port 2, the other active port: the pair is still in
  \<open>removedHosts\<close> from the first time, so it does not enter \<open>poisonedHosts\<close> again.
\<close>

theorem handle_link_down_second_time:
  "handle_link_down 1 relearned_B = Normal (forgotten_B, [])"
  by code_simp

text \<open>
  C8, as amended. An advertisement for a port that has no peer table raises
  \<open>KeyError\<close> at \<open>self.peer_tables[port]\<close>, before any change of the state and before any
  packet is sent.
\<close>

theorem handle_route_advertisement_inactive_port:
  assumes "port \<notin> fst ` set (peer_tables s)"
  shows "handle_route_advertisement now d port route_latency s = Raised KeyError (s, [])"
proof -
  have "map_of (peer_tables s) port = None" using assms by (simp add: map_of_eq_None_iff)
  then show ?thesis by (simp add: handle_route_advertisement_def)
qed

theorem handle_route_advertisement_inactive_port_witness:
  "handle_route_advertisement 3 ''B'' 7 4 two_links = Raised KeyError (two_links, [])"
proof -
  have "7 \<notin> fst ` set (peer_tables two_links)" by (simp add: two_links_def init_def)
  then show ?thesis by (rule handle_route_advertisement_inactive_port)
qed

theorem handle_route_advertisement_inactive_port_counterexample:
  "handle_route_advertisement 0 ''B'' 1 5 (init True) = Raised KeyError (init True, [])"
  by (simp add: handle_route_advertisement_def init_def)

lemma far_B_reached:
  "handle_route_advertisement 0 ''B'' 1 100 two_links =
     Normal (far_B, [(RoutePacket ''B'' 16, 1), (RoutePacket ''B'' 16, 2)])"
  by code_simp

theorem handle_route_advertisement_latencies_witness:
  "list_all (\<lambda>kv. fte_latency (snd kv) \<le> 16) (forwarding_table far_B) \<and>
   (\<exists>t. map_of (peer_tables far_B) 1 = Some t \<and>
        map_of t ''B'' = Some (PeerTableEntry ''B'' 100 (At (0 + 15))))"
  by (rule handle_route_advertisement_latencies[OF far_B_reached])

theorem handle_route_advertisement_latencies_counterexample:
  "handle_route_advertisement 0 ''B'' 1 (- 5) two_links =
     Normal (negative_B, [(RoutePacket ''B'' 16, 1), (RoutePacket ''B'' (- 4), 2)]) \<and>
   map_of (forwarding_table negative_B) ''B'' = Some (ForwardingTableEntry ''B'' 1 (- 4)) \<and>
   peer_tables negative_B = [(1, [(''B'', PeerTableEntry ''B'' (- 5) (At 15))]), (2, [])]"
proof -
  have "handle_route_advertisement 0 ''B'' 1 (- 5) two_links =
     Normal (negative_B, [(RoutePacket ''B'' 16, 1), (RoutePacket ''B'' (- 4), 2)])"
    by code_simp
  then show ?thesis by (simp add: negative_B_def two_links_def init_def)
qed

end
